theory Spec2Isabelle
  imports Main
begin

section \<open>Values and errors\<close>

text \<open>
  The worker interface of the workflow isolate exchanges plain JavaScript values
  (arguments, results and errors of dependency calls, payloads of jobs). Only their
  truthiness is ever inspected (\<^verbatim>\<open>if (error)\<close> in \<^verbatim>\<open>resolveExternalDependencies\<close>,
  \<^verbatim>\<open>if (!variant)\<close> in \<^verbatim>\<open>activate\<close>), so a small value type suffices. Numbers are integers here: sequence numbers,
  handles and millisecond clocks are integral in every run, and the rounding of
  doubles beyond \<open>2^53\<close> is outside this development.
\<close>

datatype jsval = JUndefined | JNull | JBool bool | JNum int | JStr string | JObj string

fun truthy :: "jsval \<Rightarrow> bool" where
  "truthy JUndefined = False"
| "truthy JNull = False"
| "truthy (JBool b) = b"
| "truthy (JNum n) = (n \<noteq> 0)"
| "truthy (JStr s) = (s \<noteq> [])"
| "truthy (JObj x) = True"

text \<open>
  Every \<^verbatim>\<open>throw\<close> of the source is a value of \<open>error\<close>; \<open>Thrown\<close> stands for
  whatever a job handler or an interceptor throws.
\<close>

datatype error =
    IllegalStateError string
  | TypeError string
  | DeterminismViolationError string
  | Thrown jsval

section \<open>The workflow state\<close>

record timestamp =
  seconds :: int
  nanos :: int

record WorkflowInfo =
  workflowType :: string
  runId :: string
  isReplaying :: bool

datatype command =
    StartTimer nat timestamp
  | CancelTimer nat
  | Command string jsval

datatype kind =
    Timer | Activity | ChildWorkflow | Signal | Dependency
  | CancelWorkflowExternal | SignalWorkflowExternal | Condition

datatype promise = Pending | Fulfilled jsval | Rejected jsval

text \<open>
  Callbacks (promise resolvers, timer callbacks, condition predicates) are closures
  of the isolate. They act on the part of the isolate that is not the runtime's own
  \<^verbatim>\<open>state\<close> object: the promises created by the runtime and the variables of the
  workflow code (\<open>user\<close>).
\<close>

record 'u world =
  promises :: "promise list"
  user :: 'u

record 'u completion =
  resolve :: "jsval \<Rightarrow> 'u world \<Rightarrow> 'u world"
  reject :: "jsval \<Rightarrow> 'u world \<Rightarrow> 'u world"

text \<open>An entry of \<^verbatim>\<open>state.blockedConditions\<close>: \<^verbatim>\<open>{fn, resolve}\<close>.\<close>

record 'u blockedCondition =
  cond_fn :: "'u world \<Rightarrow> bool"
  cond_resolve :: "'u world \<Rightarrow> 'u world"

record ExternalCall =
  ifaceName :: string
  fnName :: string
  args :: "jsval list"
  seq :: "nat option"

datatype ApplyMode = ASYNC | ASYNC_IGNORED | SYNC | SYNC_PROMISE | SYNC_IGNORED

text \<open>
  The functions that \<^verbatim>\<open>inject\<close> stores in \<^verbatim>\<open>state.dependencies\<close> are closures over
  its arguments; a stub records which of the three closures it is and what it
  captured (the host reference and the transfer options are opaque values).
\<close>

datatype stub =
    AsyncStub string string
  | AsyncIgnoredStub string string
  | SyncStub string ApplyMode jsval

record 'u state =
  info :: "WorkflowInfo option"
  now :: int
  commands :: "command list"
  nextSeqs :: "kind \<Rightarrow> nat"
  completions :: "kind \<Rightarrow> nat \<rightharpoonup> 'u completion"
  blockedConditions :: "(nat \<times> 'u blockedCondition) list"
  pendingExternalCalls :: "ExternalCall list"
  dependencies :: "string \<rightharpoonup> (string \<rightharpoonup> stub)"
  completed :: bool
  world :: "'u world"

subsection \<open>Helpers of the state object\<close>

text \<open>
  Modelled from the spec: \<^verbatim>\<open>state.pushCommand\<close> (module \<^verbatim>\<open>./internals\<close>) is not
  among the sources. The spec: "The command buffer is an append-only list;
  \<^verbatim>\<open>pushCommand(cmd)\<close> appends."
\<close>

definition pushCommand :: "command \<Rightarrow> 'u state \<Rightarrow> 'u state" where
  "pushCommand cmd s = s\<lparr>commands := commands s @ [cmd]\<rparr>"

text \<open>
  Modelled from the spec: \<^verbatim>\<open>state.getAndResetPendingExternalCalls\<close> (module
  \<^verbatim>\<open>./internals\<close>) is not among the sources. The spec: "returns and clears the list."
\<close>

definition getAndResetPendingExternalCalls :: "'u state \<Rightarrow> ExternalCall list \<times> 'u state" where
  "getAndResetPendingExternalCalls s = (pendingExternalCalls s, s\<lparr>pendingExternalCalls := []\<rparr>)"

text \<open>
  Modelled from the spec: \<^verbatim>\<open>consumeCompletion\<close> (module \<^verbatim>\<open>./internals\<close>) is not among
  the sources. The spec: "\<^verbatim>\<open>consumeCompletion(kind, seq)\<close> atomically removes and
  returns the entry, failing with illegal-state if not found."
\<close>

definition consumeCompletion :: "kind \<Rightarrow> nat \<Rightarrow> 'u state \<Rightarrow> (error + 'u completion) \<times> 'u state" where
  "consumeCompletion k n s =
     (case completions s k n of
        None \<Rightarrow> (Inl (IllegalStateError ''No completion for the given sequence''), s)
      | Some c \<Rightarrow> (Inr c, s\<lparr>completions := (completions s)(k := (completions s k)(n := None))\<rparr>))"

section \<open>overrideGlobals\<close>

text \<open>
  The globals that \<^verbatim>\<open>overrideGlobals\<close> replaces. A constructor or function of the
  global object is a function value; one that throws returns \<open>Inl\<close>. The host's date
  objects are of an arbitrary type \<open>'d\<close>. \<^verbatim>\<open>Date.parse\<close>, \<^verbatim>\<open>Date.UTC\<close> and
  \<^verbatim>\<open>Date.prototype\<close> are re-bound to the original's and so do not change;
  \<^verbatim>\<open>Math.random\<close> delegates to \<^verbatim>\<open>state.random\<close>, whose generator is not among the
  sources. The duration conversion \<^verbatim>\<open>msToTs\<close> of the common package is a parameter.
\<close>

record ('u, 'd) globals =
  WeakMap :: "jsval list \<Rightarrow> error + jsval"
  WeakSet :: "jsval list \<Rightarrow> error + jsval"
  WeakRef :: "jsval list \<Rightarrow> error + jsval"
  Date :: "jsval list \<Rightarrow> 'u state \<Rightarrow> 'd"
  Date_now :: "'u state \<Rightarrow> int"
  Date_parse :: "jsval list \<Rightarrow> jsval"
  Date_UTC :: "jsval list \<Rightarrow> jsval"
  setTimeout :: "(jsval list \<Rightarrow> 'u world \<Rightarrow> 'u world) \<Rightarrow> int \<Rightarrow> jsval list \<Rightarrow> 'u state \<Rightarrow> nat \<times> 'u state"
  clearTimeout :: "nat \<Rightarrow> 'u state \<Rightarrow> 'u state"

definition overrideGlobals :: "(int \<Rightarrow> timestamp) \<Rightarrow> ('u, 'd) globals \<Rightarrow> ('u, 'd) globals" where
  "overrideGlobals msToTs global =
     (let OriginalDate = Date global in
      global\<lparr>
        WeakMap := (\<lambda>a. Inl (DeterminismViolationError
          ''WeakMap cannot be used in workflows because v8 GC is non-deterministic'')),
        WeakSet := (\<lambda>a. Inl (DeterminismViolationError
          ''WeakSet cannot be used in workflows because v8 GC is non-deterministic'')),
        WeakRef := (\<lambda>a. Inl (DeterminismViolationError
          ''WeakRef cannot be used in workflows because v8 GC is non-deterministic'')),
        Date := (\<lambda>a s. if length a > 0 then OriginalDate a s else OriginalDate [JNum (now s)] s),
        Date_now := (\<lambda>s. now s),
        Date_parse := Date_parse global,
        Date_UTC := Date_UTC global,
        setTimeout := (\<lambda>cb ms a s.
          let n = nextSeqs s Timer;
              s1 = s\<lparr>nextSeqs := (nextSeqs s)(Timer := n + 1)\<rparr>;
              s2 = s1\<lparr>completions := (completions s1)(Timer := (completions s1 Timer)(n \<mapsto>
                     \<lparr>resolve = (\<lambda>v. cb a), reject = (\<lambda>v w. w)\<rparr>))\<rparr>
          in (n, pushCommand (StartTimer n (msToTs ms)) s2)),
        clearTimeout := (\<lambda>handle s.
          let s1 = s\<lparr>nextSeqs := (nextSeqs s)(Timer := nextSeqs s Timer + 1)\<rparr>;
              s2 = s1\<lparr>completions := (completions s1)(Timer := (completions s1 Timer)(handle := None))\<rparr>
          in pushCommand (CancelTimer handle) s2)
      \<rparr>)"

section \<open>The external-dependency bridge\<close>

text \<open>
  \<^verbatim>\<open>new Promise(executor)\<close> allocates a pending promise; its two resolving functions
  settle it once and are without effect afterwards.
\<close>

definition settle :: "nat \<Rightarrow> promise \<Rightarrow> 'u world \<Rightarrow> 'u world" where
  "settle p x w =
     (if p < length (promises w) \<and> promises w ! p = Pending
      then w\<lparr>promises := (promises w)[p := x]\<rparr> else w)"

definition resolvePromise :: "nat \<Rightarrow> jsval \<Rightarrow> 'u world \<Rightarrow> 'u world" where
  "resolvePromise p v = settle p (Fulfilled v)"

definition rejectPromise :: "nat \<Rightarrow> jsval \<Rightarrow> 'u world \<Rightarrow> 'u world" where
  "rejectPromise p v = settle p (Rejected v)"

definition inject :: "string \<Rightarrow> string \<Rightarrow> string \<Rightarrow> ApplyMode \<Rightarrow> jsval \<Rightarrow> 'u state \<Rightarrow> 'u state" where
  "inject iface fname dependency applyMode transferOptions s =
     (let s1 = (if dependencies s iface = None
                then s\<lparr>dependencies := (dependencies s)(iface \<mapsto> Map.empty)\<rparr> else s);
          fns = (case dependencies s1 iface of None \<Rightarrow> Map.empty | Some m \<Rightarrow> m);
          f = (if applyMode = ASYNC then AsyncStub iface fname
               else if applyMode = ASYNC_IGNORED then AsyncIgnoredStub iface fname
               else SyncStub dependency applyMode transferOptions)
      in s1\<lparr>dependencies := (dependencies s1)(iface \<mapsto> fns(fname \<mapsto> f))\<rparr>)"

text \<open>
  What a call of an injected function returns: the promise of the \<^verbatim>\<open>ASYNC\<close> closure,
  the value of \<^verbatim>\<open>Array.prototype.push\<close> (the new length of the list) for the
  \<^verbatim>\<open>ASYNC_IGNORED\<close> closure, whose body is the expression
  \<^verbatim>\<open>state.pendingExternalCalls.push({ ifaceName, fnName, args })\<close>, and whatever the host
  reference returns for the synchronous modes, which is kept as the call itself.
\<close>

datatype stub_result =
    ReturnedPromise nat
  | ReturnedNumber nat
  | ReturnedByHost string ApplyMode "jsval list" jsval

fun callStub :: "stub \<Rightarrow> jsval list \<Rightarrow> 'u state \<Rightarrow> stub_result \<times> 'u state" where
  "callStub (AsyncStub iface fname) a s =
     (let p = length (promises (world s));
          s0 = s\<lparr>world := (world s)\<lparr>promises := promises (world s) @ [Pending]\<rparr>\<rparr>;
          n = nextSeqs s0 Dependency;
          s1 = s0\<lparr>nextSeqs := (nextSeqs s0)(Dependency := n + 1)\<rparr>;
          s2 = s1\<lparr>completions := (completions s1)(Dependency := (completions s1 Dependency)(n \<mapsto>
                 \<lparr>resolve = resolvePromise p, reject = rejectPromise p\<rparr>))\<rparr>;
          s3 = s2\<lparr>pendingExternalCalls := pendingExternalCalls s2 @
                 [\<lparr>ifaceName = iface, fnName = fname, args = a, seq = Some n\<rparr>]\<rparr>
      in (ReturnedPromise p, s3))"
| "callStub (AsyncIgnoredStub iface fname) a s =
     (let s1 = s\<lparr>pendingExternalCalls := pendingExternalCalls s @
                 [\<lparr>ifaceName = iface, fnName = fname, args = a, seq = None\<rparr>]\<rparr>
      in (ReturnedNumber (length (pendingExternalCalls s1)), s1))"
| "callStub (SyncStub dependency applyMode transferOptions) a s =
     (ReturnedByHost dependency applyMode a transferOptions, s)"

datatype ExternalDependencyResult =
  ExternalDependencyResult (r_seq: nat) (r_result: jsval) (r_error: jsval)

fun resolveExternalDependencies ::
  "ExternalDependencyResult list \<Rightarrow> 'u state \<Rightarrow> (error + unit) \<times> 'u state" where
  "resolveExternalDependencies [] s = (Inr (), s)"
| "resolveExternalDependencies (r # results) s =
     (case consumeCompletion Dependency (r_seq r) s of
        (Inl e, s1) \<Rightarrow> (Inl e, s1)
      | (Inr completion, s1) \<Rightarrow>
          (if truthy (r_error r)
           then resolveExternalDependencies results
                  (s1\<lparr>world := reject completion (r_error r) (world s1)\<rparr>)
           else resolveExternalDependencies results
                  (s1\<lparr>world := resolve completion (r_result r) (world s1)\<rparr>)))"

section \<open>The condition unblocker\<close>

text \<open>
  One pass of the inner \<^verbatim>\<open>for (const [seq, cond] of state.blockedConditions.entries())\<close>.
  The map is an insertion-ordered list of entries with unique keys; deleting during
  the iteration only ever deletes the entry being visited, so the entries still to
  visit are the rest of the list the pass started with. Predicates read the world
  and resolvers change it; neither registers a new condition.
\<close>

fun unblockEntries ::
  "(nat \<times> 'u blockedCondition) list \<Rightarrow> 'u state \<times> nat \<Rightarrow> 'u state \<times> nat" where
  "unblockEntries [] (s, numUnblocked) = (s, numUnblocked)"
| "unblockEntries ((k, c) # entries) (s, numUnblocked) =
     (if cond_fn c (world s)
      then unblockEntries entries
             (s\<lparr>world := cond_resolve c (world s),
                blockedConditions := filter (\<lambda>e. fst e \<noteq> k) (blockedConditions s)\<rparr>,
              numUnblocked + 1)
      else unblockEntries entries (s, numUnblocked))"

lemma unblockEntries_mono:
  "unblockEntries es (s, n) = (s', n') \<Longrightarrow>
     n \<le> n' \<and> length (blockedConditions s') \<le> length (blockedConditions s)"
proof (induction es arbitrary: s n)
  case Nil
  then show ?case by simp
next
  case (Cons e es)
  obtain k c where e: "e = (k, c)" by (cases e)
  show ?case
  proof (cases "cond_fn c (world s)")
    case True
    let ?s1 = "s\<lparr>world := cond_resolve c (world s),
                 blockedConditions := filter (\<lambda>e. fst e \<noteq> k) (blockedConditions s)\<rparr>"
    from Cons.prems e True have "unblockEntries es (?s1, n + 1) = (s', n')" by simp
    from Cons.IH[OF this]
    have "n + 1 \<le> n'" and "length (blockedConditions s') \<le> length (blockedConditions ?s1)"
      by simp_all
    moreover have "length (blockedConditions ?s1) \<le> length (blockedConditions s)" by simp
    ultimately show ?thesis by linarith
  next
    case False
    with Cons.prems e have "unblockEntries es (s, n) = (s', n')" by simp
    from Cons.IH[OF this] show ?thesis .
  qed
qed

lemma filter_key_shorter:
  "k \<in> fst ` set xs \<Longrightarrow> length (filter (\<lambda>e. fst e \<noteq> k) xs) < length xs"
proof -
  assume "k \<in> fst ` set xs"
  then obtain e where "e \<in> set xs" and "\<not> fst e \<noteq> k" by auto
  then show ?thesis by (rule length_filter_less)
qed

lemma unblockEntries_progress:
  "unblockEntries es (s, n) = (s', n') \<Longrightarrow> fst ` set es \<subseteq> fst ` set (blockedConditions s) \<Longrightarrow>
     n' \<noteq> n \<Longrightarrow> length (blockedConditions s') < length (blockedConditions s)"
proof (induction es arbitrary: s n)
  case Nil
  then show ?case by simp
next
  case (Cons e es)
  obtain k c where e: "e = (k, c)" by (cases e)
  show ?case
  proof (cases "cond_fn c (world s)")
    case True
    let ?s1 = "s\<lparr>world := cond_resolve c (world s),
                 blockedConditions := filter (\<lambda>e. fst e \<noteq> k) (blockedConditions s)\<rparr>"
    from Cons.prems(1) e True have "unblockEntries es (?s1, n + 1) = (s', n')" by simp
    from unblockEntries_mono[OF this]
    have "length (blockedConditions s') \<le> length (blockedConditions ?s1)" by simp
    moreover from Cons.prems(2) e have "k \<in> fst ` set (blockedConditions s)" by auto
    then have "length (blockedConditions ?s1) < length (blockedConditions s)"
      by (simp add: filter_key_shorter)
    ultimately show ?thesis by linarith
  next
    case False
    with Cons.prems(1) e have run: "unblockEntries es (s, n) = (s', n')" by simp
    from Cons.prems(2) have "fst ` set es \<subseteq> fst ` set (blockedConditions s)" by auto
    from Cons.IH[OF run this Cons.prems(3)] show ?thesis .
  qed
qed

text \<open>
  The outer \<^verbatim>\<open>for (;;)\<close>: passes are repeated until one leaves the counter as it
  found it.
\<close>

function tryUnblockLoop :: "'u state \<Rightarrow> nat \<Rightarrow> nat \<times> 'u state" where
  "tryUnblockLoop s numUnblocked =
     (let prevUnblocked = numUnblocked;
          r = unblockEntries (blockedConditions s) (s, numUnblocked)
      in if prevUnblocked = snd r then (snd r, fst r) else tryUnblockLoop (fst r) (snd r))"
  by pat_completeness auto
termination
proof (relation "measure (\<lambda>(s, n). length (blockedConditions s))")
  show "wf (measure (\<lambda>(s, n). length (blockedConditions s)))" by simp
next
  fix s :: "'u state" and numUnblocked prevUnblocked :: nat and r
  assume "prevUnblocked = numUnblocked"
    and r: "r = unblockEntries (blockedConditions s) (s, numUnblocked)"
    and neq: "prevUnblocked \<noteq> snd r"
  then have "unblockEntries (blockedConditions s) (s, numUnblocked) = (fst r, snd r)"
    and "snd r \<noteq> numUnblocked" by simp_all
  from unblockEntries_progress[OF this(1) subset_refl this(2)]
  show "((fst r, snd r), s, numUnblocked) \<in> measure (\<lambda>(s, n). length (blockedConditions s))"
    by (simp add: case_prod_beta)
qed

declare tryUnblockLoop.simps [simp del]

definition tryUnblockConditions :: "'u state \<Rightarrow> nat \<times> 'u state" where
  "tryUnblockConditions s = tryUnblockLoop s 0"

section \<open>Interceptors, activation and conclusion\<close>

record WFActivationJob =
  variant :: "string option"
  payload :: jsval

record WFActivation =
  timestamp :: "timestamp option"
  isReplaying_act :: "bool option"
  jobs :: "WFActivationJob list option"

record ActivateInput =
  activation :: WFActivation
  batchIndex :: nat

text \<open>
  An interceptor of \<^verbatim>\<open>state.interceptors.internals\<close> may define either hook. The
  input of the \<^verbatim>\<open>concludeActivation\<close> hook is \<^verbatim>\<open>{ commands }\<close>, kept as the list.
  Interceptors and the activator (the table of job handlers of module
  \<^verbatim>\<open>./internals\<close>, which is not among the sources) are functions on the state and
  therefore live beside it, in \<open>env\<close>, with the timestamp conversion \<^verbatim>\<open>tsToMs\<close> of
  the common package.
\<close>

record 'u interceptor =
  activate_hook :: "(ActivateInput \<Rightarrow> (ActivateInput \<Rightarrow> 'u state \<Rightarrow> (error + unit) \<times> 'u state)
                      \<Rightarrow> 'u state \<Rightarrow> (error + unit) \<times> 'u state) option"
  concludeActivation_hook :: "(command list \<Rightarrow> (command list \<Rightarrow> command list) \<Rightarrow> command list) option"

record 'u env =
  activator :: "string \<Rightarrow> jsval \<Rightarrow> 'u state \<Rightarrow> (error + unit) \<times> 'u state"
  internals :: "'u interceptor list"
  tsToMs :: "timestamp \<Rightarrow> int"

text \<open>
  Modelled from the spec: \<^verbatim>\<open>composeInterceptors\<close> (common package) is not among the
  sources. The spec: "Each hook is declared as an ordered list of middlewares;
  composition wraps them innermost-last around the base handler, passing
  \<^verbatim>\<open>(input, next)\<close>." An interceptor without the hook is skipped.
\<close>

definition composeInterceptors ::
  "'i list \<Rightarrow> ('i \<Rightarrow> ('a \<Rightarrow> ('a \<Rightarrow> 'b) \<Rightarrow> 'b) option) \<Rightarrow> ('a \<Rightarrow> 'b) \<Rightarrow> ('a \<Rightarrow> 'b)" where
  "composeInterceptors interceptors method next =
     foldr (\<lambda>i prev. case method i of None \<Rightarrow> prev | Some f \<Rightarrow> (\<lambda>input. f input prev))
       interceptors next"

text \<open>
  \<^verbatim>\<open>jobs.map(async (job) => ...)\<close> starts every job in turn: each body runs up to its
  \<^verbatim>\<open>await\<close> before the next job starts, and a body that throws only rejects its own
  promise. The bodies that reached the \<^verbatim>\<open>await\<close> resume afterwards, in order, with
  \<^verbatim>\<open>tryUnblockConditions()\<close>; \<^verbatim>\<open>Promise.all\<close> then rejects with the first rejection
  or resolves. A handler is taken with what it awaits, as one step on the state.
\<close>

datatype job_status = JobRejected error | JobDropped | JobAwaiting

definition startJob :: "'u env \<Rightarrow> WFActivationJob \<Rightarrow> 'u state \<Rightarrow> job_status \<times> 'u state" where
  "startJob env job s =
     (case variant job of
        None \<Rightarrow> (JobRejected (TypeError ''Expected job.variant to be defined''), s)
      | Some v \<Rightarrow>
          if \<not> truthy (payload job)
          then (JobRejected (TypeError (''Expected job.'' @ v @ '' to be set'')), s)
          else if completed s \<and> v \<noteq> ''queryWorkflow'' then (JobDropped, s)
          else (case activator env v (payload job) s of
                  (Inl e, s1) \<Rightarrow> (JobRejected e, s1)
                | (Inr u, s1) \<Rightarrow> (JobAwaiting, s1)))"

fun startJobs :: "'u env \<Rightarrow> WFActivationJob list \<Rightarrow> 'u state \<Rightarrow> job_status list \<times> 'u state" where
  "startJobs env [] s = ([], s)"
| "startJobs env (job # js) s =
     (let r = startJob env job s; rs = startJobs env js (snd r)
      in (fst r # fst rs, snd rs))"

fun resumeJobs :: "job_status list \<Rightarrow> 'u state \<Rightarrow> 'u state" where
  "resumeJobs [] s = s"
| "resumeJobs (JobAwaiting # sts) s = resumeJobs sts (snd (tryUnblockConditions s))"
| "resumeJobs (st # sts) s = resumeJobs sts s"

fun firstRejection :: "job_status list \<Rightarrow> error option" where
  "firstRejection [] = None"
| "firstRejection (JobRejected e # sts) = Some e"
| "firstRejection (st # sts) = firstRejection sts"

text \<open>The handler that \<^verbatim>\<open>activate\<close> passes to \<^verbatim>\<open>composeInterceptors\<close>.\<close>

definition activateHandler :: "'u env \<Rightarrow> ActivateInput \<Rightarrow> 'u state \<Rightarrow> (error + unit) \<times> 'u state" where
  "activateHandler env input s =
     (case (if batchIndex input = 0 then
              (case info s of
                 None \<Rightarrow> Inl (IllegalStateError ''Workflow has not been initialized'')
               | Some i \<Rightarrow>
                   (case jobs (activation input) of
                      None \<Rightarrow> Inl (TypeError ''Got activation with no jobs'')
                    | Some js \<Rightarrow>
                        (let s1 = (case timestamp (activation input) of
                                     None \<Rightarrow> s
                                   | Some ts \<Rightarrow> s\<lparr>now := tsToMs env ts\<rparr>)
                         in Inr (s1\<lparr>info := Some (i\<lparr>isReplaying :=
                              (case isReplaying_act (activation input) of
                                 None \<Rightarrow> False | Some b \<Rightarrow> b)\<rparr>)\<rparr>))))
            else Inr s) of
        Inl e \<Rightarrow> (Inl e, s)
      | Inr s1 \<Rightarrow>
          (case jobs (activation input) of
             None \<Rightarrow> (Inl (TypeError ''Cannot read properties of undefined''), s1)
           | Some js \<Rightarrow>
               (let started = startJobs env js s1;
                    s3 = resumeJobs (fst started) (snd started)
                in (case firstRejection (fst started) of
                      Some e \<Rightarrow> (Inl e, s3)
                    | None \<Rightarrow> (Inr (), s3)))))"

record ActivationResult =
  externalCalls :: "ExternalCall list"
  numBlockedConditions :: nat

text \<open>
  \<^verbatim>\<open>activate\<close> takes the activation as decoded from the delimited message; the
  protobuf decoding is outside this development.
\<close>

definition activate ::
  "'u env \<Rightarrow> WFActivation \<Rightarrow> nat \<Rightarrow> 'u state \<Rightarrow> (error + ActivationResult) \<times> 'u state" where
  "activate env act bi s =
     (let intercept = composeInterceptors (internals env) activate_hook (activateHandler env)
      in case intercept \<lparr>activation = act, batchIndex = bi\<rparr> s of
           (Inl e, s1) \<Rightarrow> (Inl e, s1)
         | (Inr u, s1) \<Rightarrow>
             (let r = getAndResetPendingExternalCalls s1
              in (Inr \<lparr>externalCalls = fst r,
                       numBlockedConditions = length (blockedConditions (snd r))\<rparr>, snd r)))"

text \<open>
  The encoded completion is kept as the message it encodes:
  \<^verbatim>\<open>{ runId: info?.runId, successful: { commands } }\<close>.
\<close>

datatype encoded = EncodeDelimited "string option" "command list"

datatype ActivationConclusion =
    ConclusionPending "ExternalCall list" nat
  | ConclusionComplete encoded

definition concludeActivation :: "'u env \<Rightarrow> 'u state \<Rightarrow> ActivationConclusion \<times> 'u state" where
  "concludeActivation env s =
     (let r = getAndResetPendingExternalCalls s;
          pending = fst r;
          s1 = snd r
      in if length pending > 0
         then (ConclusionPending pending (length (blockedConditions s1)), s1)
         else (let intercept = composeInterceptors (internals env) concludeActivation_hook (\<lambda>input. input);
                   cmds = intercept (commands s1);
                   enc = EncodeDelimited (map_option runId (info s1)) cmds
               in (ConclusionComplete enc, s1\<lparr>commands := []\<rparr>)))"

text \<open>
  The state in which the jobs of a batch start: the state after the
  \<^verbatim>\<open>if (batchIndex === 0)\<close> block of the handler, when that block does not throw.
\<close>

definition batchStart :: "'u env \<Rightarrow> WFActivation \<Rightarrow> nat \<Rightarrow> 'u state \<Rightarrow> 'u state" where
  "batchStart env act bi s =
     (if bi = 0 then
        (case info s of
           None \<Rightarrow> s
         | Some i \<Rightarrow>
             (case timestamp act of None \<Rightarrow> s | Some ts \<Rightarrow> s\<lparr>now := tsToMs env ts\<rparr>)
               \<lparr>info := Some (i\<lparr>isReplaying :=
                   (case isReplaying_act act of None \<Rightarrow> False | Some b \<Rightarrow> b)\<rparr>)\<rparr>)
      else s)"

text \<open>
  The post-completion policy in the spec's words, to be compared with what \<^verbatim>\<open>activate\<close>
  does: "After \<^verbatim>\<open>completed = true\<close>, only \<^verbatim>\<open>queryWorkflow\<close> jobs may run; all others
  are silently dropped." Each query is passed to its handler in the state its
  predecessors left, and awaits it; every other job is dropped where it stands.
\<close>

fun queriesOnly :: "'u env \<Rightarrow> WFActivationJob list \<Rightarrow> 'u state \<Rightarrow> job_status list \<times> 'u state" where
  "queriesOnly env [] s = ([], s)"
| "queriesOnly env (job # js) s =
     (if variant job = Some ''queryWorkflow''
      then (let r = activator env ''queryWorkflow'' (payload job) s;
                rest = queriesOnly env js (snd r)
            in ((case fst r of Inl e \<Rightarrow> JobRejected e | Inr u \<Rightarrow> JobAwaiting) # fst rest, snd rest))
      else (let rest = queriesOnly env js s in (JobDropped # fst rest, snd rest)))"

section \<open>What a pass of the unblocker does\<close>

text \<open>
  Three functions describe a pass over the entries \<open>es\<close> that starts in the world
  \<open>w\<close>: the entries it unblocks, in the order in which it does; the world after
  the resolvers of a list of entries have been called one after the other, once each;
  and whether each entry of a list has a predicate that holds when its turn comes.
\<close>

fun fired :: "(nat \<times> 'u blockedCondition) list \<Rightarrow> 'u world \<Rightarrow> (nat \<times> 'u blockedCondition) list" where
  "fired [] w = []"
| "fired ((k, c) # es) w =
     (if cond_fn c w then (k, c) # fired es (cond_resolve c w) else fired es w)"

fun resolveAll :: "(nat \<times> 'u blockedCondition) list \<Rightarrow> 'u world \<Rightarrow> 'u world" where
  "resolveAll [] w = w"
| "resolveAll ((k, c) # es) w = resolveAll es (cond_resolve c w)"

fun unblocks :: "(nat \<times> 'u blockedCondition) list \<Rightarrow> 'u world \<Rightarrow> bool" where
  "unblocks [] w = True"
| "unblocks ((k, c) # es) w = (cond_fn c w \<and> unblocks es (cond_resolve c w))"

section \<open>Runs of the worker interface\<close>

text \<open>
  A run is a sequence of calls of the operations above, made by the workflow code
  (the timer globals and the injected dependency functions) and by the worker. Each
  call reports the sequence numbers it allocated: the kind, the number, and whether
  the registry of that kind already held a completion under the number when it was
  allocated. The timer number is the handle that \<^verbatim>\<open>setTimeout\<close> returns; the
  dependency number is the one carried by the external call that the \<^verbatim>\<open>ASYNC\<close>
  closure appended.
\<close>

datatype 'u call =
    SetTimeout "jsval list \<Rightarrow> 'u world \<Rightarrow> 'u world" int "jsval list"
  | ClearTimeout nat
  | CallStub stub "jsval list"
  | Inject string string string ApplyMode jsval
  | ResolveExternalDependencies "ExternalDependencyResult list"
  | TryUnblockConditions
  | ConcludeActivation
  | GetAndResetPendingExternalCalls

type_synonym allocation = "kind \<times> nat \<times> bool"

fun exec :: "('u, 'd) globals \<Rightarrow> 'u env \<Rightarrow> 'u call \<Rightarrow> 'u state \<Rightarrow> allocation list \<times> 'u state" where
  "exec g env (SetTimeout cb ms a) s =
     (let r = setTimeout g cb ms a s
      in ([(Timer, fst r, completions s Timer (fst r) \<noteq> None)], snd r))"
| "exec g env (ClearTimeout h) s = ([], clearTimeout g h s)"
| "exec g env (CallStub (AsyncStub iface fname) a) s =
     (let r = callStub (AsyncStub iface fname) a s
      in (case seq (last (pendingExternalCalls (snd r))) of
            None \<Rightarrow> []
          | Some n \<Rightarrow> [(Dependency, n, completions s Dependency n \<noteq> None)], snd r))"
| "exec g env (CallStub st a) s = ([], snd (callStub st a s))"
| "exec g env (Inject iface fname dependency applyMode transferOptions) s =
     ([], inject iface fname dependency applyMode transferOptions s)"
| "exec g env (ResolveExternalDependencies results) s = ([], snd (resolveExternalDependencies results s))"
| "exec g env TryUnblockConditions s = ([], snd (tryUnblockConditions s))"
| "exec g env ConcludeActivation s = ([], snd (concludeActivation env s))"
| "exec g env GetAndResetPendingExternalCalls s = ([], snd (getAndResetPendingExternalCalls s))"

fun run :: "('u, 'd) globals \<Rightarrow> 'u env \<Rightarrow> 'u call list \<Rightarrow> 'u state \<Rightarrow> allocation list \<times> 'u state" where
  "run g env [] s = ([], s)"
| "run g env (c # cs) s =
     (let r = exec g env c s; rs = run g env cs (snd r) in (fst r @ fst rs, snd rs))"

definition seqsOf :: "kind \<Rightarrow> allocation list \<Rightarrow> nat list" where
  "seqsOf k log = map (\<lambda>x. fst (snd x)) (filter (\<lambda>x. fst x = k) log)"

definition registered_below_next :: "'u state \<Rightarrow> bool" where
  "registered_below_next s = (\<forall>k n. completions s k n \<noteq> None \<longrightarrow> n < nextSeqs s k)"

text \<open>
  What a call may do to the counters and the registries: no counter decreases, and a
  completion that is new sits under a number its counter has passed.
\<close>

definition seq_step :: "'u state \<Rightarrow> 'u state \<Rightarrow> bool" where
  "seq_step s s' = ((\<forall>k. nextSeqs s k \<le> nextSeqs s' k)
     \<and> (\<forall>k n. completions s' k n \<noteq> None \<longrightarrow> completions s k n \<noteq> None \<or> n < nextSeqs s' k))"

section \<open>Example configurations\<close>

text \<open>
  A host whose date objects are the argument lists they were built from, a workflow
  run as \<^verbatim>\<open>initRuntime\<close> leaves it (no interceptors), and an activator whose
  \<^verbatim>\<open>startWorkflow\<close> handler sleeps through \<^verbatim>\<open>setTimeout\<close> and whose
  \<^verbatim>\<open>queryWorkflow\<close> handler responds to the query.
\<close>

definition example_msToTs :: "int \<Rightarrow> timestamp" where
  "example_msToTs ms = \<lparr>seconds = ms div 1000, nanos = (ms mod 1000) * 1000000\<rparr>"

definition example_tsToMs :: "timestamp \<Rightarrow> int" where
  "example_tsToMs ts = seconds ts * 1000 + nanos ts div 1000000"

definition host_globals :: "(nat, jsval list) globals" where
  "host_globals =
     \<lparr>WeakMap = (\<lambda>a. Inr (JObj ''WeakMap'')),
      WeakSet = (\<lambda>a. Inr (JObj ''WeakSet'')),
      WeakRef = (\<lambda>a. Inr (JObj ''WeakRef'')),
      Date = (\<lambda>a s. if a = [] then [JNum 1634000000000] else a),
      Date_now = (\<lambda>s. 1634000000000),
      Date_parse = (\<lambda>a. JUndefined),
      Date_UTC = (\<lambda>a. JUndefined),
      setTimeout = (\<lambda>cb ms a s. (0, s)),
      clearTimeout = (\<lambda>h s. s)\<rparr>"

definition example_state :: "nat state" where
  "example_state =
     \<lparr>info = Some \<lparr>workflowType = ''sleeper'', runId = ''run-1'', isReplaying = False\<rparr>,
      now = 0,
      commands = [],
      nextSeqs = (\<lambda>k. 0),
      completions = (\<lambda>k. Map.empty),
      blockedConditions = [],
      pendingExternalCalls = [],
      dependencies = Map.empty,
      completed = False,
      world = \<lparr>promises = [], user = 0\<rparr>\<rparr>"

definition example_activator :: "string \<Rightarrow> jsval \<Rightarrow> nat state \<Rightarrow> (error + unit) \<times> nat state" where
  "example_activator v p s =
     (if v = ''startWorkflow''
      then (Inr (), snd (setTimeout (overrideGlobals example_msToTs host_globals)
                           (\<lambda>a w. w\<lparr>user := 1\<rparr>) 1000 [] s))
      else if v = ''queryWorkflow''
      then (Inr (), pushCommand (Command ''respondToQuery'' p) s)
      else (Inr (), s))"

definition example_env :: "nat env" where
  "example_env = \<lparr>activator = example_activator, internals = [], tsToMs = example_tsToMs\<rparr>"

definition example_activation :: WFActivation where
  "example_activation =
     \<lparr>timestamp = Some \<lparr>seconds = 5, nanos = 7000000\<rparr>, isReplaying_act = None,
      jobs = Some [\<lparr>variant = Some ''startWorkflow'', payload = JObj ''start''\<rparr>]\<rparr>"

definition example_conditions :: "(nat \<times> nat blockedCondition) list" where
  "example_conditions =
     [(0, \<lparr>cond_fn = (\<lambda>w. 10 \<le> user w), cond_resolve = (\<lambda>w. w\<lparr>user := user w + 100\<rparr>)\<rparr>),
      (1, \<lparr>cond_fn = (\<lambda>w. 0 < user w), cond_resolve = (\<lambda>w. w\<lparr>user := user w + 10\<rparr>)\<rparr>),
      (2, \<lparr>cond_fn = (\<lambda>w. user w = 5), cond_resolve = (\<lambda>w. w)\<rparr>)]"

definition completed_state :: "nat state" where
  "completed_state = example_state\<lparr>completed := True, commands := [Command ''completeWorkflowExecution'' JNull]\<rparr>"

definition post_completion_jobs :: "WFActivationJob list" where
  "post_completion_jobs =
     [\<lparr>variant = Some ''fireTimer'', payload = JObj ''timer''\<rparr>,
      \<lparr>variant = Some ''queryWorkflow'', payload = JObj ''query''\<rparr>,
      \<lparr>variant = Some ''signalWorkflow'', payload = JObj ''signal''\<rparr>]"

definition post_completion_activation :: WFActivation where
  "post_completion_activation =
     \<lparr>timestamp = None, isReplaying_act = None, jobs = Some post_completion_jobs\<rparr>"

definition example_call :: ExternalCall where
  "example_call = \<lparr>ifaceName = ''metrics'', fnName = ''emit'', args = [JNum 42], seq = None\<rparr>"

definition awaiting_state :: "nat state" where
  "awaiting_state = snd (callStub (AsyncStub ''billing'' ''charge'') [JNum 42] example_state)"

definition example_calls :: "nat call list" where
  "example_calls =
     [SetTimeout (\<lambda>a w. w) 1000 [], ClearTimeout 0, SetTimeout (\<lambda>a w. w) 5 [],
      CallStub (AsyncStub ''billing'' ''charge'') [], CallStub (AsyncIgnoredStub ''metrics'' ''emit'') [],
      CallStub (AsyncStub ''billing'' ''refund'') []]"

definition blocked_state :: "nat state" where
  "blocked_state = example_state\<lparr>blockedConditions := example_conditions,
                                 world := \<lparr>promises = [], user = 1\<rparr>\<rparr>"

section \<open>Forbidden globals\<close>

text \<open>
  C9. After \<^verbatim>\<open>overrideGlobals\<close>, constructing a \<^verbatim>\<open>WeakMap\<close>, a \<^verbatim>\<open>WeakSet\<close> or a
  \<^verbatim>\<open>WeakRef\<close> fails at once with a determinism-violation error, whatever the
  arguments and whatever the globals were before.
\<close>

theorem weak_constructors_throw:
  "WeakMap (overrideGlobals msToTs global) a = Inl (DeterminismViolationError
      ''WeakMap cannot be used in workflows because v8 GC is non-deterministic'')
   \<and> WeakSet (overrideGlobals msToTs global) a = Inl (DeterminismViolationError
      ''WeakSet cannot be used in workflows because v8 GC is non-deterministic'')
   \<and> WeakRef (overrideGlobals msToTs global) a = Inl (DeterminismViolationError
      ''WeakRef cannot be used in workflows because v8 GC is non-deterministic'')"
  by (simp add: overrideGlobals_def Let_def)

section \<open>Timers\<close>

text \<open>
  C7. \<^verbatim>\<open>clearTimeout(h)\<close> increments the timer counter, deletes the completion
  registered under \<open>h\<close> and appends \<^verbatim>\<open>cancelTimer{seq: h}\<close> to the command
  buffer; nothing else changes, so neither function of the completion is called and
  the world of the workflow code is as before. In particular, for the handle that
  \<^verbatim>\<open>setTimeout\<close> has just returned: the completion it registered is gone, the
  counter has advanced twice, and the buffer ends with the \<^verbatim>\<open>startTimer\<close> and the
  \<^verbatim>\<open>cancelTimer\<close> of that handle.
\<close>

theorem clearTimeout_cancels:
  "clearTimeout (overrideGlobals msToTs global) h s =
     s\<lparr>nextSeqs := (nextSeqs s)(Timer := nextSeqs s Timer + 1),
       completions := (completions s)(Timer := (completions s Timer)(h := None)),
       commands := commands s @ [CancelTimer h]\<rparr>
   \<and> world (clearTimeout (overrideGlobals msToTs global) h s) = world s
   \<and> (case setTimeout (overrideGlobals msToTs global) cb ms a s0 of (h0, s1) \<Rightarrow>
        h0 = nextSeqs s0 Timer \<and>
        completions s1 Timer h0 = Some \<lparr>resolve = (\<lambda>v. cb a), reject = (\<lambda>v w. w)\<rparr> \<and>
        (let s2 = clearTimeout (overrideGlobals msToTs global) h0 s1 in
           completions s2 Timer h0 = None \<and> world s2 = world s0 \<and>
           nextSeqs s2 Timer = nextSeqs s0 Timer + 2 \<and>
           commands s2 = commands s0 @ [StartTimer h0 (msToTs ms), CancelTimer h0]))"
  by (simp add: overrideGlobals_def Let_def pushCommand_def)

section \<open>Dependency calls\<close>

lemma callStub_asyncIgnored:
  "callStub (AsyncIgnoredStub iface fname) a s =
     (ReturnedNumber (length (pendingExternalCalls s) + 1),
      s\<lparr>pendingExternalCalls := pendingExternalCalls s @
           [\<lparr>ifaceName = iface, fnName = fname, args = a, seq = None\<rparr>]\<rparr>)"
  by (simp add: Let_def)

lemma inject_asyncIgnored:
  "\<exists>m. dependencies (inject iface fname d ASYNC_IGNORED t s) iface = Some m
        \<and> m fname = Some (AsyncIgnoredStub iface fname)"
  by (simp add: inject_def Let_def)

text \<open>
  C8. A function injected with \<^verbatim>\<open>ASYNC_IGNORED\<close> appends
  \<^verbatim>\<open>{ifaceName, fnName, args}\<close> without a sequence number and registers no
  completion, but it does not return nothing: its body is the \<^verbatim>\<open>push\<close> expression,
  so the call returns the new length of the list. Here the first call of
  \<^verbatim>\<open>metrics.emit(42)\<close> returns 1.
\<close>

theorem asyncIgnored_returns_length:
  "callStub (AsyncIgnoredStub ''metrics'' ''emit'') [JNum 42] example_state
     = (ReturnedNumber 1,
        example_state\<lparr>pendingExternalCalls :=
          [\<lparr>ifaceName = ''metrics'', fnName = ''emit'', args = [JNum 42], seq = None\<rparr>]\<rparr>)"
  by (simp add: example_state_def Let_def)

lemma settle_pending:
  "p < length (promises w) \<Longrightarrow> promises w ! p = Pending \<Longrightarrow> promises (settle p x w) ! p = x"
  by (simp add: settle_def)

text \<open>
  C4, as the code has it. The \<^verbatim>\<open>ASYNC\<close> closure returns a new pending promise,
  registers its two resolving functions under the dependency number it allocates and
  appends the call with that number. For a state in which such a completion is
  registered under \<open>n\<close> for a pending promise \<open>p\<close>,
  \<^verbatim>\<open>resolveExternalDependencies([{seq: n, result: r, error: e}])\<close> returns, removes the
  completion, and settles \<open>p\<close>: rejected with \<open>e\<close> when \<open>e\<close> is truthy, fulfilled
  with \<open>r\<close> otherwise. When nothing is registered under \<open>n\<close> the call fails with
  an illegal-state error and changes nothing.
\<close>

theorem resolveExternalDependencies_correlates:
  "(case callStub (AsyncStub iface fname) a s of (ret, s1) \<Rightarrow>
      ret = ReturnedPromise (length (promises (world s)))
    \<and> completions s1 Dependency (nextSeqs s Dependency)
        = Some \<lparr>resolve = resolvePromise (length (promises (world s))),
                reject = rejectPromise (length (promises (world s)))\<rparr>
    \<and> length (promises (world s)) < length (promises (world s1))
    \<and> promises (world s1) ! length (promises (world s)) = Pending
    \<and> pendingExternalCalls s1 = pendingExternalCalls s @
        [\<lparr>ifaceName = iface, fnName = fname, args = a, seq = Some (nextSeqs s Dependency)\<rparr>])
   \<and> (completions t Dependency n = Some \<lparr>resolve = resolvePromise p, reject = rejectPromise p\<rparr>
        \<and> p < length (promises (world t)) \<and> promises (world t) ! p = Pending \<longrightarrow>
        (case resolveExternalDependencies [ExternalDependencyResult n r e] t of (res, t') \<Rightarrow>
           res = Inr () \<and> completions t' Dependency n = None
         \<and> promises (world t') ! p = (if truthy e then Rejected e else Fulfilled r)))
   \<and> (completions t Dependency n = None \<longrightarrow>
        (\<exists>msg. resolveExternalDependencies (ExternalDependencyResult n r e # rest) t
                 = (Inl (IllegalStateError msg), t)))"
  by (auto simp: Let_def consumeCompletion_def resolvePromise_def rejectPromise_def settle_def nth_append)

text \<open>
  The theorem at the state that follows one call of \<^verbatim>\<open>billing.charge(42)\<close>: a result,
  an error object, and a sequence number that was never allocated.
\<close>

lemma awaiting_state_eq:
  "awaiting_state = example_state\<lparr>
      world := \<lparr>promises = [Pending], user = 0\<rparr>,
      nextSeqs := (\<lambda>k. 0)(Dependency := 1),
      completions := (\<lambda>k. Map.empty)(Dependency := [0 \<mapsto> \<lparr>resolve = resolvePromise 0, reject = rejectPromise 0\<rparr>]),
      pendingExternalCalls := [\<lparr>ifaceName = ''billing'', fnName = ''charge'', args = [JNum 42], seq = Some 0\<rparr>]\<rparr>"
  by (simp add: awaiting_state_def example_state_def Let_def)

theorem resolveExternalDependencies_correlates_witness:
  "promises (world (snd (resolveExternalDependencies
      [ExternalDependencyResult 0 (JStr ''receipt'') JUndefined] awaiting_state))) ! 0 = Fulfilled (JStr ''receipt'')
   \<and> promises (world (snd (resolveExternalDependencies
      [ExternalDependencyResult 0 JUndefined (JObj ''Error: declined'')] awaiting_state))) ! 0
        = Rejected (JObj ''Error: declined'')
   \<and> resolveExternalDependencies [ExternalDependencyResult 7 JUndefined JUndefined] awaiting_state
       = (Inl (IllegalStateError ''No completion for the given sequence''), awaiting_state)"
proof -
  have reg: "completions awaiting_state Dependency 0
               = Some \<lparr>resolve = resolvePromise 0, reject = rejectPromise 0\<rparr>
             \<and> 0 < length (promises (world awaiting_state))
             \<and> promises (world awaiting_state) ! 0 = Pending"
    by (simp add: awaiting_state_eq example_state_def)
  have unknown: "completions awaiting_state Dependency 7 = None"
    by (simp add: awaiting_state_eq example_state_def)
  note ok = resolveExternalDependencies_correlates[where s = example_state and iface = "''billing''"
        and fname = "''charge''" and a = "[]" and t = awaiting_state and n = 0 and p = 0 and rest = "[]",
        THEN conjunct2, THEN conjunct1, rule_format, OF reg]
  have a: "promises (world (snd (resolveExternalDependencies
      [ExternalDependencyResult 0 (JStr ''receipt'') JUndefined] awaiting_state))) ! 0 = Fulfilled (JStr ''receipt'')"
    using ok[where r = "JStr ''receipt''" and e = JUndefined]
    by (simp add: case_prod_beta del: resolveExternalDependencies.simps)
  have b: "promises (world (snd (resolveExternalDependencies
      [ExternalDependencyResult 0 JUndefined (JObj ''Error: declined'')] awaiting_state))) ! 0
        = Rejected (JObj ''Error: declined'')"
    using ok[where r = JUndefined and e = "JObj ''Error: declined''"]
    by (simp add: case_prod_beta del: resolveExternalDependencies.simps)
  from resolveExternalDependencies_correlates[where s = example_state and iface = "''billing''"
        and fname = "''charge''" and a = "[]" and t = awaiting_state and n = 7 and p = 0 and rest = "[]"
        and r = JUndefined and e = JUndefined,
        THEN conjunct2, THEN conjunct2, rule_format, OF unknown]
  obtain msg where c: "resolveExternalDependencies [ExternalDependencyResult 7 JUndefined JUndefined] awaiting_state
            = (Inl (IllegalStateError msg), awaiting_state)"
    by blast
  have "fst (resolveExternalDependencies [ExternalDependencyResult 7 JUndefined JUndefined] awaiting_state)
       = Inl (IllegalStateError ''No completion for the given sequence'')"
    using unknown by (simp add: consumeCompletion_def)
  with c have c': "resolveExternalDependencies [ExternalDependencyResult 7 JUndefined JUndefined] awaiting_state
       = (Inl (IllegalStateError ''No completion for the given sequence''), awaiting_state)"
    by simp
  from a b c' show ?thesis by simp
qed

text \<open>
  The test \<^verbatim>\<open>if (error)\<close> is one of truthiness: an error value that is falsy, here
  the number 0, does not reject the promise; it fulfils it with the (absent) result.
\<close>

theorem falsy_error_resolves:
  "promises (world (snd (resolveExternalDependencies
      [ExternalDependencyResult 0 JUndefined (JNum 0)]
      (snd (callStub (AsyncStub ''billing'' ''charge'') [JNum 42] example_state)))))
     = [Fulfilled JUndefined]"
  by (simp add: example_state_def Let_def consumeCompletion_def resolvePromise_def
      rejectPromise_def settle_def)

section \<open>Conditions\<close>

lemma resolveAll_append: "resolveAll (xs @ ys) w = resolveAll ys (resolveAll xs w)"
  by (induction xs w rule: resolveAll.induct) simp_all

lemma unblocks_append: "unblocks (xs @ ys) w = (unblocks xs w \<and> unblocks ys (resolveAll xs w))"
  by (induction xs w rule: unblocks.induct) auto

lemma fired_unblocks: "unblocks (fired es w) w"
  by (induction es w rule: fired.induct) simp_all

lemma fired_subset: "set (fired es w) \<subseteq> set es"
  by (induction es w rule: fired.induct) auto

lemma fired_distinct: "distinct (map fst es) \<Longrightarrow> distinct (map fst (fired es w))"
proof (induction es w rule: fired.induct)
  case (1 w)
  then show ?case by simp
next
  case (2 k c es w)
  have "k \<notin> fst ` set (fired es (cond_resolve c w))"
    using fired_subset[of es "cond_resolve c w"] "2.prems" by auto
  with 2 show ?case by auto
qed

lemma fired_Nil_iff: "(fired es w = []) = (\<forall>e\<in>set es. \<not> cond_fn (snd e) w)"
  by (induction es w rule: fired.induct) auto

lemma unblockEntries_fired:
  "unblockEntries es (s, n) =
     (s\<lparr>world := resolveAll (fired es (world s)) (world s),
        blockedConditions := filter (\<lambda>e. fst e \<notin> fst ` set (fired es (world s))) (blockedConditions s)\<rparr>,
      n + length (fired es (world s)))"
proof (induction es arbitrary: s n)
  case Nil
  then show ?case by simp
next
  case (Cons e es)
  obtain k c where e: "e = (k, c)" by (cases e)
  show ?case
  proof (cases "cond_fn c (world s)")
    case True
    have "filter (\<lambda>e. fst e \<notin> fst ` set (fired es (cond_resolve c (world s))))
            (filter (\<lambda>e. fst e \<noteq> k) (blockedConditions s))
        = filter (\<lambda>e. fst e \<notin> insert k (fst ` set (fired es (cond_resolve c (world s)))))
            (blockedConditions s)"
      by (simp add: conj_commute)
    with True e show ?thesis by (simp add: Cons.IH)
  next
    case False
    with e show ?thesis by (simp add: Cons.IH)
  qed
qed

lemma tryUnblockLoop_unfold:
  "tryUnblockLoop s n =
     (if fired (blockedConditions s) (world s) = [] then (n, s)
      else tryUnblockLoop
             (s\<lparr>world := resolveAll (fired (blockedConditions s) (world s)) (world s),
                blockedConditions := filter (\<lambda>e. fst e \<notin> fst ` set (fired (blockedConditions s) (world s)))
                                       (blockedConditions s)\<rparr>)
             (n + length (fired (blockedConditions s) (world s))))"
  by (subst tryUnblockLoop.simps) (simp add: Let_def unblockEntries_fired)

lemma tryUnblockLoop_char:
  "distinct (map fst (blockedConditions s)) \<Longrightarrow>
   \<exists>removed.
       blockedConditions (snd (tryUnblockLoop s n))
         = filter (\<lambda>e. fst e \<notin> fst ` set removed) (blockedConditions s)
     \<and> set removed \<subseteq> set (blockedConditions s)
     \<and> distinct (map fst removed)
     \<and> fst (tryUnblockLoop s n) = n + length removed
     \<and> unblocks removed (world s)
     \<and> world (snd (tryUnblockLoop s n)) = resolveAll removed (world s)
     \<and> (\<forall>e\<in>set (blockedConditions (snd (tryUnblockLoop s n))).
           \<not> cond_fn (snd e) (world (snd (tryUnblockLoop s n))))
     \<and> snd (tryUnblockLoop s n) =
         s\<lparr>world := world (snd (tryUnblockLoop s n)),
           blockedConditions := blockedConditions (snd (tryUnblockLoop s n))\<rparr>"
proof (induction s n rule: tryUnblockLoop.induct)
  case (1 s n)
  let ?f = "fired (blockedConditions s) (world s)"
  show ?case
  proof (cases "?f = []")
    case True
    then have res: "tryUnblockLoop s n = (n, s)" by (subst tryUnblockLoop_unfold) simp
    from True have still: "\<forall>e\<in>set (blockedConditions s). \<not> cond_fn (snd e) (world s)"
      by (simp add: fired_Nil_iff)
    show ?thesis
    proof (intro exI[of _ "[]"] conjI)
      show "\<forall>e\<in>set (blockedConditions (snd (tryUnblockLoop s n))).
              \<not> cond_fn (snd e) (world (snd (tryUnblockLoop s n)))"
        using still by (simp add: res)
    qed (simp_all add: res)
  next
    case False
    let ?s1 = "s\<lparr>world := resolveAll ?f (world s),
                 blockedConditions := filter (\<lambda>e. fst e \<notin> fst ` set ?f) (blockedConditions s)\<rparr>"
    let ?r = "unblockEntries (blockedConditions s) (s, n)"
    let ?t = "snd (tryUnblockLoop ?s1 (n + length ?f))"
    have r: "?r = (?s1, n + length ?f)" by (rule unblockEntries_fired)
    from False have step: "tryUnblockLoop s n = tryUnblockLoop ?s1 (n + length ?f)"
      by (subst tryUnblockLoop_unfold) simp
    from False have neq: "n \<noteq> snd ?r" by (simp add: r)
    have d1: "distinct (map fst (blockedConditions ?s1))"
      using "1.prems" by (simp add: distinct_map_filter)
    have d1': "distinct (map fst (blockedConditions (fst ?r)))"
      using d1 by (simp only: r fst_conv)
    note IH = "1.IH"[OF refl refl neq d1', unfolded r fst_conv snd_conv]
    from IH obtain removed where R:
      "blockedConditions ?t = filter (\<lambda>e. fst e \<notin> fst ` set removed) (blockedConditions ?s1)
       \<and> set removed \<subseteq> set (blockedConditions ?s1)
       \<and> distinct (map fst removed)
       \<and> fst (tryUnblockLoop ?s1 (n + length ?f)) = n + length ?f + length removed
       \<and> unblocks removed (world ?s1)
       \<and> world ?t = resolveAll removed (world ?s1)
       \<and> (\<forall>e\<in>set (blockedConditions ?t). \<not> cond_fn (snd e) (world ?t))
       \<and> ?t = ?s1\<lparr>world := world ?t, blockedConditions := blockedConditions ?t\<rparr>"
      by (elim exE)
    from R have a: "blockedConditions ?t
                      = filter (\<lambda>e. fst e \<notin> fst ` set removed) (blockedConditions ?s1)"
      by (rule conjunct1)
    from R have b: "set removed \<subseteq> set (blockedConditions ?s1)"
      by (elim conjE)
    from R have c: "distinct (map fst removed)"
      by (elim conjE)
    from R have d: "fst (tryUnblockLoop ?s1 (n + length ?f)) = n + length ?f + length removed"
      by (elim conjE)
    from R have e: "unblocks removed (world ?s1)"
      by (elim conjE)
    from R have f: "world ?t = resolveAll removed (world ?s1)"
      by (elim conjE)
    from R have g: "\<forall>e\<in>set (blockedConditions ?t). \<not> cond_fn (snd e) (world ?t)"
      by (elim conjE)
    from R have h: "?t = ?s1\<lparr>world := world ?t, blockedConditions := blockedConditions ?t\<rparr>"
      by (elim conjE)
    let ?all = "?f @ removed"
    have "filter (\<lambda>e. fst e \<notin> fst ` set removed) (filter (\<lambda>e. fst e \<notin> fst ` set ?f) (blockedConditions s))
            = filter (\<lambda>e. fst e \<notin> fst ` set ?all) (blockedConditions s)"
      by (auto simp: image_Un intro: filter_cong)
    with a have A: "blockedConditions (snd (tryUnblockLoop s n))
               = filter (\<lambda>e. fst e \<notin> fst ` set ?all) (blockedConditions s)"
      unfolding step by simp
    from b have b': "set removed \<subseteq> set (blockedConditions s)" by auto
    with fired_subset[of "blockedConditions s" "world s"]
    have B: "set ?all \<subseteq> set (blockedConditions s)" by simp
    have "x \<notin> fst ` set ?f" if "x \<in> fst ` set removed" for x
    proof -
      from that obtain e where "e \<in> set removed" and "x = fst e" by auto
      with b show ?thesis by auto
    qed
    then have "fst ` set ?f \<inter> fst ` set removed = {}" by blast
    then have C: "distinct (map fst ?all)"
      using c fired_distinct[OF "1.prems", of "world s"] by simp
    have D: "fst (tryUnblockLoop s n) = n + length ?all" unfolding step d by simp
    have E: "unblocks ?all (world s)"
      using e by (simp add: unblocks_append fired_unblocks)
    have F: "world (snd (tryUnblockLoop s n)) = resolveAll ?all (world s)"
      unfolding step f by (simp add: resolveAll_append)
    have G: "\<forall>e\<in>set (blockedConditions (snd (tryUnblockLoop s n))).
                \<not> cond_fn (snd e) (world (snd (tryUnblockLoop s n)))"
      unfolding step by (rule g)
    have H: "snd (tryUnblockLoop s n) =
               s\<lparr>world := world (snd (tryUnblockLoop s n)),
                 blockedConditions := blockedConditions (snd (tryUnblockLoop s n))\<rparr>"
      unfolding step by (subst h) simp
    show ?thesis
      by (intro exI[of _ ?all] conjI) (rule A B C D E F G H)+
  qed
qed

lemma tryUnblockLoop_ge: "n \<le> fst (tryUnblockLoop s n)"
proof (induction s n rule: tryUnblockLoop.induct)
  case (1 s n)
  let ?f = "fired (blockedConditions s) (world s)"
  let ?r = "unblockEntries (blockedConditions s) (s, n)"
  show ?case
  proof (cases "?f = []")
    case True
    then show ?thesis by (subst tryUnblockLoop_unfold) simp
  next
    case False
    have r: "?r = (s\<lparr>world := resolveAll ?f (world s),
                 blockedConditions := filter (\<lambda>e. fst e \<notin> fst ` set ?f) (blockedConditions s)\<rparr>,
               n + length ?f)"
      by (rule unblockEntries_fired)
    from False have neq: "n \<noteq> snd ?r" by (simp add: r)
    from "1.IH"[OF refl refl neq] have "snd ?r \<le> fst (tryUnblockLoop (fst ?r) (snd ?r))" .
    moreover from False have "tryUnblockLoop s n = tryUnblockLoop (fst ?r) (snd ?r)"
      by (subst tryUnblockLoop_unfold) (simp add: r)
    ultimately show ?thesis by (simp add: r)
  qed
qed

lemma tryUnblockLoop_zero:
  "(fst (tryUnblockLoop s n) = n) = (\<forall>e\<in>set (blockedConditions s). \<not> cond_fn (snd e) (world s))"
proof (cases "fired (blockedConditions s) (world s) = []")
  case True
  then have "tryUnblockLoop s n = (n, s)" by (subst tryUnblockLoop_unfold) simp
  with True show ?thesis by (simp add: fired_Nil_iff)
next
  case False
  let ?f = "fired (blockedConditions s) (world s)"
  let ?s1 = "s\<lparr>world := resolveAll ?f (world s),
               blockedConditions := filter (\<lambda>e. fst e \<notin> fst ` set ?f) (blockedConditions s)\<rparr>"
  from False have "tryUnblockLoop s n = tryUnblockLoop ?s1 (n + length ?f)"
    by (subst tryUnblockLoop_unfold) simp
  moreover have "n + length ?f \<le> fst (tryUnblockLoop ?s1 (n + length ?f))"
    by (rule tryUnblockLoop_ge)
  ultimately have "n + length ?f \<le> fst (tryUnblockLoop s n)" by simp
  moreover from False have "0 < length ?f" by simp
  ultimately have "fst (tryUnblockLoop s n) \<noteq> n" by linarith
  with False show ?thesis by (simp add: fired_Nil_iff)
qed

text \<open>
  C6. \<^verbatim>\<open>tryUnblockConditions()\<close> terminates, and for a map (keys are unique) there is
  a list \<open>removed\<close> of entries of the map, without repetition, such that: the map
  afterwards is the map before without exactly these entries, in the old order; the
  number returned is their number; each of them had a predicate that held when its
  turn came; the world afterwards is the world before with their resolvers called one
  after the other, once each; no predicate of a remaining entry holds in the world
  afterwards; and nothing else of the state has changed. The number returned is 0 if
  and only if no registered predicate holds on entry.
\<close>

theorem tryUnblockConditions_fixed_point:
  assumes "distinct (map fst (blockedConditions s))"
  shows "(\<exists>removed.
            blockedConditions (snd (tryUnblockConditions s))
              = filter (\<lambda>e. fst e \<notin> fst ` set removed) (blockedConditions s)
          \<and> set removed \<subseteq> set (blockedConditions s)
          \<and> distinct (map fst removed)
          \<and> fst (tryUnblockConditions s) = length removed
          \<and> unblocks removed (world s)
          \<and> world (snd (tryUnblockConditions s)) = resolveAll removed (world s))
       \<and> (\<forall>e\<in>set (blockedConditions (snd (tryUnblockConditions s))).
             \<not> cond_fn (snd e) (world (snd (tryUnblockConditions s))))
       \<and> snd (tryUnblockConditions s) =
           s\<lparr>world := world (snd (tryUnblockConditions s)),
             blockedConditions := blockedConditions (snd (tryUnblockConditions s))\<rparr>
       \<and> ((fst (tryUnblockConditions s) = 0)
            = (\<forall>e\<in>set (blockedConditions s). \<not> cond_fn (snd e) (world s)))"
proof -
  from tryUnblockLoop_char[OF assms, of 0] obtain removed where
    "blockedConditions (snd (tryUnblockLoop s 0))
         = filter (\<lambda>e. fst e \<notin> fst ` set removed) (blockedConditions s)
     \<and> set removed \<subseteq> set (blockedConditions s)
     \<and> distinct (map fst removed)
     \<and> fst (tryUnblockLoop s 0) = 0 + length removed
     \<and> unblocks removed (world s)
     \<and> world (snd (tryUnblockLoop s 0)) = resolveAll removed (world s)
     \<and> (\<forall>e\<in>set (blockedConditions (snd (tryUnblockLoop s 0))).
           \<not> cond_fn (snd e) (world (snd (tryUnblockLoop s 0))))
     \<and> snd (tryUnblockLoop s 0) =
         s\<lparr>world := world (snd (tryUnblockLoop s 0)),
           blockedConditions := blockedConditions (snd (tryUnblockLoop s 0))\<rparr>"
    by blast
  then show ?thesis
    unfolding tryUnblockConditions_def using tryUnblockLoop_zero[of s 0] by auto
qed

text \<open>
  Three conditions and a counter that is 1: the second unblocks in the first pass and
  adds 10, which makes the first hold in the second pass; the third never holds.
\<close>

theorem tryUnblockConditions_fixed_point_witness:
  "distinct (map fst (blockedConditions blocked_state))
   \<and> fst (tryUnblockConditions blocked_state) = 2
   \<and> map fst (blockedConditions (snd (tryUnblockConditions blocked_state))) = [2]
   \<and> user (world (snd (tryUnblockConditions blocked_state))) = 111
   \<and> \<not> cond_fn (snd (example_conditions ! 2)) (world (snd (tryUnblockConditions blocked_state)))"
proof -
  have d: "distinct (map fst (blockedConditions blocked_state))"
    by (simp add: blocked_state_def example_conditions_def)
  have run: "tryUnblockConditions blocked_state
    = (2, example_state\<lparr>blockedConditions := [(2, \<lparr>cond_fn = (\<lambda>w. user w = 5), cond_resolve = (\<lambda>w. w)\<rparr>)],
            world := \<lparr>promises = [], user = 111\<rparr>\<rparr>)"
    by (simp add: blocked_state_def tryUnblockConditions_def tryUnblockLoop.simps example_conditions_def
        example_state_def Let_def)
  from tryUnblockConditions_fixed_point[OF d]
  have "\<forall>e\<in>set (blockedConditions (snd (tryUnblockConditions blocked_state))).
             \<not> cond_fn (snd e) (world (snd (tryUnblockConditions blocked_state)))"
    by blast
  then have "\<not> cond_fn (snd (example_conditions ! 2)) (world (snd (tryUnblockConditions blocked_state)))"
    by (simp add: run example_conditions_def)
  with d run show ?thesis by simp
qed

section \<open>Activation\<close>

lemma unblockEntries_frame:
  "\<exists>w b. fst (unblockEntries es (s, n)) = s\<lparr>world := w, blockedConditions := b\<rparr>"
proof (induction es arbitrary: s n)
  case Nil
  have "s = s\<lparr>world := world s, blockedConditions := blockedConditions s\<rparr>" by simp
  then show ?case by (metis unblockEntries.simps(1) fst_conv)
next
  case (Cons e es)
  obtain k c where e: "e = (k, c)" by (cases e)
  show ?case
  proof (cases "cond_fn c (world s)")
    case True
    let ?s1 = "s\<lparr>world := cond_resolve c (world s),
                 blockedConditions := filter (\<lambda>e. fst e \<noteq> k) (blockedConditions s)\<rparr>"
    from Cons.IH[of ?s1 "n + 1"] obtain w b
      where "fst (unblockEntries es (?s1, n + 1)) = ?s1\<lparr>world := w, blockedConditions := b\<rparr>"
      by blast
    with e True have "fst (unblockEntries (e # es) (s, n)) = s\<lparr>world := w, blockedConditions := b\<rparr>"
      by simp
    then show ?thesis by blast
  next
    case False
    with e Cons.IH[of s n] show ?thesis by simp
  qed
qed

lemma tryUnblockLoop_frame:
  "\<exists>w b. snd (tryUnblockLoop s n) = s\<lparr>world := w, blockedConditions := b\<rparr>"
proof (induction s n rule: tryUnblockLoop.induct)
  case (1 s n)
  let ?r = "unblockEntries (blockedConditions s) (s, n)"
  obtain w b where r: "fst ?r = s\<lparr>world := w, blockedConditions := b\<rparr>"
    using unblockEntries_frame by blast
  show ?case
  proof (cases "n = snd ?r")
    case True
    then have "snd (tryUnblockLoop s n) = fst ?r"
      by (subst tryUnblockLoop.simps) (simp add: Let_def)
    with r have "snd (tryUnblockLoop s n) = s\<lparr>world := w, blockedConditions := b\<rparr>" by simp
    then show ?thesis by blast
  next
    case False
    then have eq: "tryUnblockLoop s n = tryUnblockLoop (fst ?r) (snd ?r)"
      by (subst tryUnblockLoop.simps) (simp add: Let_def)
    from "1.IH"[OF refl refl False] obtain w' b'
      where "snd (tryUnblockLoop (fst ?r) (snd ?r)) = (fst ?r)\<lparr>world := w', blockedConditions := b'\<rparr>"
      by blast
    with eq r have "snd (tryUnblockLoop s n) = s\<lparr>world := w', blockedConditions := b'\<rparr>" by simp
    then show ?thesis by blast
  qed
qed

lemma tryUnblockConditions_frame:
  "\<exists>w b. snd (tryUnblockConditions s) = s\<lparr>world := w, blockedConditions := b\<rparr>"
  unfolding tryUnblockConditions_def by (rule tryUnblockLoop_frame)

lemma resumeJobs_frame:
  "\<exists>w b. resumeJobs sts s = s\<lparr>world := w, blockedConditions := b\<rparr>"
proof (induction sts s rule: resumeJobs.induct)
  case (1 s)
  have "s = s\<lparr>world := world s, blockedConditions := blockedConditions s\<rparr>" by simp
  then show ?case by (metis resumeJobs.simps(1))
next
  case (2 sts s)
  obtain w b where a: "snd (tryUnblockConditions s) = s\<lparr>world := w, blockedConditions := b\<rparr>"
    using tryUnblockConditions_frame by blast
  from 2 obtain w' b' where
    "resumeJobs sts (snd (tryUnblockConditions s)) =
       (snd (tryUnblockConditions s))\<lparr>world := w', blockedConditions := b'\<rparr>" by blast
  with a have "resumeJobs (JobAwaiting # sts) s = s\<lparr>world := w', blockedConditions := b'\<rparr>" by simp
  then show ?case by blast
qed simp_all

lemma resumeJobs_now: "now (resumeJobs sts s) = now s"
  using resumeJobs_frame[of sts s] by auto

lemma startJob_now:
  "\<forall>v p t. now (snd (activator env v p t)) = now t \<Longrightarrow> now (snd (startJob env job s)) = now s"
proof -
  assume h: "\<forall>v p t. now (snd (activator env v p t)) = now t"
  have "\<And>v r t. activator env v (payload job) s = (r, t) \<Longrightarrow> now t = now s"
    using h by (metis snd_conv)
  then show ?thesis
    by (auto simp: startJob_def split: option.splits prod.splits sum.splits)
qed

lemma startJobs_now:
  "\<forall>v p t. now (snd (activator env v p t)) = now t \<Longrightarrow> now (snd (startJobs env js s)) = now s"
  by (induction js arbitrary: s) (simp_all add: Let_def startJob_now)

lemma composeInterceptors_Nil [simp]: "composeInterceptors [] method next = next"
  by (simp add: composeInterceptors_def)

lemma activateHandler_now:
  assumes "\<forall>v p t. now (snd (activator env v p t)) = now t"
  shows "now (snd (activateHandler env input s)) =
     (if batchIndex input = 0 \<and> info s \<noteq> None \<and> jobs (activation input) \<noteq> None
      then (case timestamp (activation input) of None \<Rightarrow> now s | Some ts \<Rightarrow> tsToMs env ts)
      else now s)"
  using assms
  by (auto simp: activateHandler_def Let_def resumeJobs_now startJobs_now
      split: option.splits sum.splits)

lemma activateHandler_returns:
  "fst (activateHandler env input s) = Inr x \<Longrightarrow> batchIndex input = 0 \<Longrightarrow>
     info s \<noteq> None \<and> jobs (activation input) \<noteq> None"
  by (auto simp: activateHandler_def Let_def split: option.splits sum.splits if_splits)

lemma activate_plain:
  "internals env = [] \<Longrightarrow> now (snd (activate env act bi s)) =
     now (snd (activateHandler env \<lparr>activation = act, batchIndex = bi\<rparr> s))
   \<and> (\<forall>x. fst (activate env act bi s) = Inr x \<longrightarrow>
        fst (activateHandler env \<lparr>activation = act, batchIndex = bi\<rparr> s) = Inr ())"
  by (auto simp: activate_def Let_def getAndResetPendingExternalCalls_def
      split: prod.splits sum.splits)

lemma tryUnblockConditions_Nil: "blockedConditions s = [] \<Longrightarrow> tryUnblockConditions s = (0, s)"
  unfolding tryUnblockConditions_def by (subst tryUnblockLoop.simps) (simp add: Let_def)

text \<open>
  C1. With no interceptor installed and job handlers that leave \<^verbatim>\<open>state.now\<close>
  alone: when \<^verbatim>\<open>activate(A, 0)\<close> returns for an activation with timestamp \<open>T\<close>,
  \<^verbatim>\<open>Date.now()\<close> is \<^verbatim>\<open>tsToMs(T)\<close> and \<^verbatim>\<open>new Date()\<close> is the date that the original
  constructor builds from that number; and when the activation has no timestamp or
  the batch index is not 0, \<^verbatim>\<open>activate\<close> leaves \<^verbatim>\<open>state.now\<close> as it was, whether
  it returns or throws.
\<close>

theorem activate_clock:
  assumes plain: "internals env = []"
    and frame: "\<forall>v p t. now (snd (activator env v p t)) = now t"
  shows "(\<forall>T x. timestamp act = Some T \<and> fst (activate env act 0 s) = Inr x \<longrightarrow>
            Date_now (overrideGlobals msToTs global) (snd (activate env act 0 s)) = tsToMs env T
          \<and> Date (overrideGlobals msToTs global) [] (snd (activate env act 0 s))
              = Date global [JNum (tsToMs env T)] (snd (activate env act 0 s)))
       \<and> ((timestamp act = None \<or> bi \<noteq> 0) \<longrightarrow> now (snd (activate env act bi s)) = now s)"
proof -
  let ?h = "\<lambda>b. activateHandler env \<lparr>activation = act, batchIndex = b\<rparr> s"
  have unchanged: "now (snd (activate env act bi s)) = now s" if "timestamp act = None \<or> bi \<noteq> 0"
  proof -
    have "now (snd (?h bi)) = now s"
      using that by (auto simp: activateHandler_now[OF frame])
    with activate_plain[OF plain, of act bi s] show ?thesis by simp
  qed
  have set_now: "now (snd (activate env act 0 s)) = tsToMs env T"
    if "timestamp act = Some T" and "fst (activate env act 0 s) = Inr x" for T x
  proof -
    from activate_plain[OF plain, of act 0 s] that(2)
    have ok: "fst (?h 0) = Inr ()" and eq: "now (snd (activate env act 0 s)) = now (snd (?h 0))"
      by simp_all
    from activateHandler_returns[OF ok] have "info s \<noteq> None" and "jobs act \<noteq> None" by simp_all
    with that(1) have "now (snd (?h 0)) = tsToMs env T"
      by (simp add: activateHandler_now[OF frame])
    with eq show ?thesis by simp
  qed
  show ?thesis
    using unchanged set_now by (auto simp: overrideGlobals_def Let_def)
qed

text \<open>
  The example run: a first batch with timestamp 5.007 s sets the clock to 5007 ms;
  the same activation without a timestamp, or as a later batch, leaves it at 0.
\<close>

lemmas example_defs = example_env_def example_activator_def example_state_def example_msToTs_def
  example_tsToMs_def example_activation_def host_globals_def example_conditions_def

theorem activate_clock_witness:
  "Date_now (overrideGlobals example_msToTs host_globals)
      (snd (activate example_env example_activation 0 example_state)) = 5007
   \<and> Date (overrideGlobals example_msToTs host_globals) []
      (snd (activate example_env example_activation 0 example_state)) = [JNum 5007]
   \<and> now (snd (activate example_env (example_activation\<lparr>timestamp := None\<rparr>) 0 example_state)) = 0
   \<and> now (snd (activate example_env example_activation 1 example_state)) = 0"
proof -
  have plain: "internals example_env = []" by (simp add: example_env_def)
  have frame: "\<forall>v p t. now (snd (activator example_env v p t)) = now t"
    by (simp add: example_env_def example_activator_def overrideGlobals_def Let_def pushCommand_def)
  have ok: "fst (activate example_env example_activation 0 example_state)
              = Inr \<lparr>externalCalls = [], numBlockedConditions = 0\<rparr>"
    by (simp add: activate_def activateHandler_def startJob_def overrideGlobals_def pushCommand_def
        Let_def tryUnblockConditions_Nil getAndResetPendingExternalCalls_def example_defs)
  have ts: "timestamp example_activation = Some \<lparr>seconds = 5, nanos = 7000000\<rparr>"
    by (simp add: example_activation_def)
  from activate_clock[OF plain frame, where act = example_activation and s = example_state
        and msToTs = example_msToTs and global = host_globals and bi = 1] ts ok
  have a: "Date_now (overrideGlobals example_msToTs host_globals)
             (snd (activate example_env example_activation 0 example_state))
             = tsToMs example_env \<lparr>seconds = 5, nanos = 7000000\<rparr>"
    and b: "Date (overrideGlobals example_msToTs host_globals) []
             (snd (activate example_env example_activation 0 example_state))
             = Date host_globals [JNum (tsToMs example_env \<lparr>seconds = 5, nanos = 7000000\<rparr>)]
                 (snd (activate example_env example_activation 0 example_state))"
    and c: "now (snd (activate example_env example_activation 1 example_state)) = now example_state"
    by blast+
  from activate_clock[OF plain frame, where act = "example_activation\<lparr>timestamp := None\<rparr>"
        and s = example_state and msToTs = example_msToTs and global = host_globals and bi = 0]
  have d: "now (snd (activate example_env (example_activation\<lparr>timestamp := None\<rparr>) 0 example_state))
             = now example_state"
    by simp
  from a b c d show ?thesis
    by (simp add: example_env_def example_tsToMs_def host_globals_def example_state_def)
qed

lemma startJob_dropped:
  "completed s \<Longrightarrow> variant job \<noteq> Some ''queryWorkflow'' \<Longrightarrow>
     snd (startJob env job s) = s \<and> fst (startJob env job s) \<noteq> JobAwaiting"
  by (auto simp: startJob_def split: option.splits)

lemma startJobs_dropped:
  "completed s \<Longrightarrow> \<forall>j\<in>set js. variant j \<noteq> Some ''queryWorkflow'' \<Longrightarrow>
     snd (startJobs env js s) = s \<and> JobAwaiting \<notin> set (fst (startJobs env js s))"
proof (induction js)
  case Nil
  then show ?case by simp
next
  case (Cons j js)
  from Cons.prems have "snd (startJob env j s) = s" and "fst (startJob env j s) \<noteq> JobAwaiting"
    by (simp_all add: startJob_dropped)
  moreover from Cons have "snd (startJobs env js s) = s \<and> JobAwaiting \<notin> set (fst (startJobs env js s))"
    by simp
  ultimately show ?case by (simp add: Let_def)
qed

lemma resumeJobs_none_awaiting: "JobAwaiting \<notin> set sts \<Longrightarrow> resumeJobs sts s = s"
  by (induction sts s rule: resumeJobs.induct) simp_all

lemma startJobs_queriesOnly:
  assumes keep: "\<forall>v p t. completed t \<longrightarrow> completed (snd (activator env v p t))"
  shows "completed s \<Longrightarrow> \<forall>j\<in>set js. variant j \<noteq> None \<and> truthy (payload j) \<Longrightarrow>
           startJobs env js s = queriesOnly env js s"
proof (induction js arbitrary: s)
  case Nil
  then show ?case by simp
next
  case (Cons j js)
  from Cons.prems(2) obtain v where v: "variant j = Some v" and p: "truthy (payload j)" by auto
  show ?case
  proof (cases "v = ''queryWorkflow''")
    case True
    let ?r = "activator env ''queryWorkflow'' (payload j) s"
    from keep Cons.prems(1) have c: "completed (snd ?r)" by blast
    have sj: "startJob env j s = ((case fst ?r of Inl e \<Rightarrow> JobRejected e | Inr u \<Rightarrow> JobAwaiting), snd ?r)"
      using v p True by (simp add: startJob_def split: prod.splits sum.splits)
    from Cons.prems(2) have "\<forall>j\<in>set js. variant j \<noteq> None \<and> truthy (payload j)" by simp
    from Cons.IH[OF c this] have "startJobs env js (snd ?r) = queriesOnly env js (snd ?r)" .
    with sj v True show ?thesis by (simp add: Let_def)
  next
    case False
    have sj: "startJob env j s = (JobDropped, s)"
      using v p False Cons.prems(1) by (simp add: startJob_def)
    from Cons.prems(2) have "\<forall>j\<in>set js. variant j \<noteq> None \<and> truthy (payload j)" by simp
    from Cons.IH[OF Cons.prems(1) this] have "startJobs env js s = queriesOnly env js s" .
    with sj v False show ?thesis by (simp add: Let_def)
  qed
qed

lemma batchStart_completed: "completed (batchStart env act bi s) = completed s"
  by (simp add: batchStart_def split: option.splits)

lemma activateHandler_batchStart:
  "(bi = 0 \<longrightarrow> info s \<noteq> None) \<Longrightarrow> jobs act = Some js \<Longrightarrow>
     activateHandler env \<lparr>activation = act, batchIndex = bi\<rparr> s =
       (let started = startJobs env js (batchStart env act bi s);
            s3 = resumeJobs (fst started) (snd started)
        in (case firstRejection (fst started) of Some e \<Rightarrow> (Inl e, s3) | None \<Rightarrow> (Inr (), s3)))"
  by (auto simp: activateHandler_def batchStart_def Let_def split: option.splits)

lemma activate_completed:
  assumes plain: "internals env = []"
    and keep: "\<forall>v p t. completed t \<longrightarrow> completed (snd (activator env v p t))"
    and comp: "completed s"
    and ready: "bi = 0 \<longrightarrow> info s \<noteq> None"
    and js: "jobs act = Some js"
    and wf: "\<forall>j\<in>set js. variant j \<noteq> None \<and> truthy (payload j)"
  shows "activate env act bi s =
     (let d = queriesOnly env js (batchStart env act bi s);
          s3 = resumeJobs (fst d) (snd d)
      in (case firstRejection (fst d) of
            Some e \<Rightarrow> (Inl e, s3)
          | None \<Rightarrow> (Inr \<lparr>externalCalls = pendingExternalCalls s3,
                           numBlockedConditions = length (blockedConditions s3)\<rparr>,
                      s3\<lparr>pendingExternalCalls := []\<rparr>)))"
proof -
  have "completed (batchStart env act bi s)" using comp by (simp add: batchStart_completed)
  from startJobs_queriesOnly[OF keep this wf]
  have eq: "startJobs env js (batchStart env act bi s) = queriesOnly env js (batchStart env act bi s)" .
  show ?thesis
    unfolding activate_def
    by (simp add: plain activateHandler_batchStart[OF ready js] eq Let_def
        getAndResetPendingExternalCalls_def split: option.splits)
qed

lemma activate_drops:
  assumes plain: "internals env = []" and comp: "completed s"
    and js: "jobs act = Some js"
    and nq: "\<forall>j\<in>set js. variant j \<noteq> Some ''queryWorkflow''"
  shows "(snd (activate env act bi s))\<lparr>now := now s, info := info s,
            pendingExternalCalls := pendingExternalCalls s\<rparr> = s"
proof (cases "bi = 0 \<and> info s = None")
  case True
  then show ?thesis
    by (simp add: activate_def plain activateHandler_def)
next
  case False
  then have ready: "bi = 0 \<longrightarrow> info s \<noteq> None" by auto
  let ?s1 = "batchStart env act bi s"
  have c1: "completed ?s1" using comp by (simp add: batchStart_completed)
  from startJobs_dropped[OF c1 nq, of env]
  have a: "snd (startJobs env js ?s1) = ?s1" and b: "JobAwaiting \<notin> set (fst (startJobs env js ?s1))"
    by simp_all
  have h: "snd (activateHandler env \<lparr>activation = act, batchIndex = bi\<rparr> s) = ?s1"
    by (simp add: activateHandler_batchStart[OF ready js] Let_def a resumeJobs_none_awaiting[OF b]
        split: option.splits)
  have m: "?s1\<lparr>now := now s, info := info s, pendingExternalCalls := pendingExternalCalls s\<rparr> = s"
    by (simp add: batchStart_def split: option.splits)
  have "snd (activate env act bi s) = ?s1 \<or> snd (activate env act bi s) = ?s1\<lparr>pendingExternalCalls := []\<rparr>"
    using h by (auto simp: activate_def plain Let_def getAndResetPendingExternalCalls_def
        split: prod.splits sum.splits)
  then show ?thesis
  proof
    assume "snd (activate env act bi s) = ?s1"
    with m show ?thesis by simp
  next
    assume e: "snd (activate env act bi s) = ?s1\<lparr>pendingExternalCalls := []\<rparr>"
    have "?s1\<lparr>pendingExternalCalls := [], now := now s, info := info s,
              pendingExternalCalls := pendingExternalCalls s\<rparr> = s"
      by (simp add: batchStart_def split: option.splits)
    with e show ?thesis by simp
  qed
qed

text \<open>
  C2. While \<^verbatim>\<open>state.completed\<close> is true: a job whose variant is not
  \<^verbatim>\<open>queryWorkflow\<close> leaves the state exactly as it was, whatever the activator is
  (no handler runs, no command is added), and when its variant and payload are set
  it is dropped without an error; a \<^verbatim>\<open>queryWorkflow\<close> job with a payload is
  passed to its handler and awaits it. For \<^verbatim>\<open>activate\<close> itself, with no interceptor
  installed: an activation none of whose jobs is a query changes nothing but the
  clock, the replay flag and the drained list of external calls, whatever the
  activator is; and when the handlers keep \<^verbatim>\<open>completed\<close> set and every job has its
  variant and payload, \<^verbatim>\<open>activate\<close> does to its jobs, in any mixture and order,
  exactly what the policy says: every query reaches its handler, the condition
  unblocker runs after each, every other job is skipped, and the result is the
  first rejection of a query handler or the drained external calls.
\<close>

theorem completed_drops_non_query:
  assumes "completed s"
  shows "(variant job \<noteq> Some ''queryWorkflow'' \<longrightarrow>
            snd (startJob env job s) = s
          \<and> (\<forall>v. variant job = Some v \<and> truthy (payload job) \<longrightarrow> fst (startJob env job s) = JobDropped))
       \<and> (variant job = Some ''queryWorkflow'' \<and> truthy (payload job) \<longrightarrow>
            startJob env job s =
              (case activator env ''queryWorkflow'' (payload job) s of
                 (Inl e, s1) \<Rightarrow> (JobRejected e, s1)
               | (Inr u, s1) \<Rightarrow> (JobAwaiting, s1)))
       \<and> ((\<forall>j\<in>set js. variant j \<noteq> Some ''queryWorkflow'') \<longrightarrow>
            snd (startJobs env js s) = s
          \<and> resumeJobs (fst (startJobs env js s)) (snd (startJobs env js s)) = s)
       \<and> (internals env = [] \<and> jobs act = Some js
            \<and> (\<forall>j\<in>set js. variant j \<noteq> Some ''queryWorkflow'') \<longrightarrow>
            (snd (activate env act bi s))\<lparr>now := now s, info := info s,
               pendingExternalCalls := pendingExternalCalls s\<rparr> = s)
       \<and> (internals env = [] \<and> jobs act = Some js
            \<and> (\<forall>v p t. completed t \<longrightarrow> completed (snd (activator env v p t)))
            \<and> (bi = 0 \<longrightarrow> info s \<noteq> None)
            \<and> (\<forall>j\<in>set js. variant j \<noteq> None \<and> truthy (payload j)) \<longrightarrow>
            activate env act bi s =
              (let d = queriesOnly env js (batchStart env act bi s);
                   s3 = resumeJobs (fst d) (snd d)
               in (case firstRejection (fst d) of
                     Some e \<Rightarrow> (Inl e, s3)
                   | None \<Rightarrow> (Inr \<lparr>externalCalls = pendingExternalCalls s3,
                                    numBlockedConditions = length (blockedConditions s3)\<rparr>,
                               s3\<lparr>pendingExternalCalls := []\<rparr>))))"
proof -
  have one: "snd (startJob env job s) = s" if "variant job \<noteq> Some ''queryWorkflow''"
    using assms that by (simp add: startJob_dropped)
  have silent: "fst (startJob env job s) = JobDropped"
    if "variant job \<noteq> Some ''queryWorkflow''" and "variant job = Some v" and "truthy (payload job)" for v
    using assms that by (simp add: startJob_def)
  have query: "startJob env job s =
              (case activator env ''queryWorkflow'' (payload job) s of
                 (Inl e, s1) \<Rightarrow> (JobRejected e, s1)
               | (Inr u, s1) \<Rightarrow> (JobAwaiting, s1))"
    if "variant job = Some ''queryWorkflow''" and "truthy (payload job)"
    using that by (simp add: startJob_def)
  have all: "snd (startJobs env js s) = s
          \<and> resumeJobs (fst (startJobs env js s)) (snd (startJobs env js s)) = s"
    if "\<forall>j\<in>set js. variant j \<noteq> Some ''queryWorkflow''"
    using startJobs_dropped[OF assms that, of env] by (simp add: resumeJobs_none_awaiting)
  have drops: "(snd (activate env act bi s))\<lparr>now := now s, info := info s,
               pendingExternalCalls := pendingExternalCalls s\<rparr> = s"
    if "internals env = []" and "jobs act = Some js"
      and "\<forall>j\<in>set js. variant j \<noteq> Some ''queryWorkflow''"
    using that(1) assms that(2) that(3) by (rule activate_drops)
  have policy: "activate env act bi s =
              (let d = queriesOnly env js (batchStart env act bi s);
                   s3 = resumeJobs (fst d) (snd d)
               in (case firstRejection (fst d) of
                     Some e \<Rightarrow> (Inl e, s3)
                   | None \<Rightarrow> (Inr \<lparr>externalCalls = pendingExternalCalls s3,
                                    numBlockedConditions = length (blockedConditions s3)\<rparr>,
                               s3\<lparr>pendingExternalCalls := []\<rparr>)))"
    if "internals env = []" and "jobs act = Some js"
      and "\<forall>v p t. completed t \<longrightarrow> completed (snd (activator env v p t))"
      and "bi = 0 \<longrightarrow> info s \<noteq> None"
      and "\<forall>j\<in>set js. variant j \<noteq> None \<and> truthy (payload j)"
    using that(1) that(3) assms that(4) that(2) that(5) by (rule activate_completed)
  from one silent query all drops policy show ?thesis by blast
qed

text \<open>
  After completion, an activation with a timer, a query and a signal answers the
  query and nothing else.
\<close>

theorem completed_drops_non_query_witness:
  "completed completed_state
   \<and> activate example_env post_completion_activation 0 completed_state
       = (Inr \<lparr>externalCalls = [], numBlockedConditions = 0\<rparr>,
          completed_state\<lparr>commands := [Command ''completeWorkflowExecution'' JNull,
                                         Command ''respondToQuery'' (JObj ''query'')]\<rparr>)
   \<and> startJob example_env \<lparr>variant = Some ''fireTimer'', payload = JObj ''timer''\<rparr> completed_state
       = (JobDropped, completed_state)
   \<and> startJob example_env \<lparr>variant = Some ''queryWorkflow'', payload = JObj ''query''\<rparr> completed_state
       = (JobAwaiting, completed_state\<lparr>commands := [Command ''completeWorkflowExecution'' JNull,
                                                      Command ''respondToQuery'' (JObj ''query'')]\<rparr>)"
proof -
  have c: "completed completed_state" by (simp add: completed_state_def example_state_def)
  note T = completed_drops_non_query[OF c, where env = example_env and js = post_completion_jobs
        and act = post_completion_activation and bi = 0]
  have plain: "internals example_env = []" by (simp add: example_env_def)
  have js: "jobs post_completion_activation = Some post_completion_jobs"
    by (simp add: post_completion_activation_def)
  have keep: "\<forall>v p t. completed t \<longrightarrow> completed (snd (activator example_env v p t))"
    by (simp add: example_env_def example_activator_def overrideGlobals_def Let_def pushCommand_def)
  have ready: "(0::nat) = 0 \<longrightarrow> info completed_state \<noteq> None"
    by (simp add: completed_state_def example_state_def)
  have wf: "\<forall>j\<in>set post_completion_jobs. variant j \<noteq> None \<and> truthy (payload j)"
    by (simp add: post_completion_jobs_def)
  from T[where job = "\<lparr>variant = Some ''fireTimer'', payload = JObj ''timer''\<rparr>"]
       plain js keep ready wf
  have pol: "activate example_env post_completion_activation 0 completed_state =
              (let d = queriesOnly example_env post_completion_jobs
                         (batchStart example_env post_completion_activation 0 completed_state);
                   s3 = resumeJobs (fst d) (snd d)
               in (case firstRejection (fst d) of
                     Some e \<Rightarrow> (Inl e, s3)
                   | None \<Rightarrow> (Inr \<lparr>externalCalls = pendingExternalCalls s3,
                                    numBlockedConditions = length (blockedConditions s3)\<rparr>,
                               s3\<lparr>pendingExternalCalls := []\<rparr>)))"
    by blast
  have run: "activate example_env post_completion_activation 0 completed_state
       = (Inr \<lparr>externalCalls = [], numBlockedConditions = 0\<rparr>,
          completed_state\<lparr>commands := [Command ''completeWorkflowExecution'' JNull,
                                         Command ''respondToQuery'' (JObj ''query'')]\<rparr>)"
    unfolding pol
    by (simp add: post_completion_jobs_def post_completion_activation_def batchStart_def
        completed_state_def example_state_def example_env_def example_activator_def
        pushCommand_def Let_def tryUnblockConditions_Nil)
  from T[where job = "\<lparr>variant = Some ''fireTimer'', payload = JObj ''timer''\<rparr>"]
  have d1: "snd (startJob example_env \<lparr>variant = Some ''fireTimer'', payload = JObj ''timer''\<rparr> completed_state)
          = completed_state"
    and d2: "fst (startJob example_env \<lparr>variant = Some ''fireTimer'', payload = JObj ''timer''\<rparr> completed_state)
          = JobDropped"
    by (simp_all del: startJobs.simps)
  have q: "startJob example_env \<lparr>variant = Some ''queryWorkflow'', payload = JObj ''query''\<rparr> completed_state
       = (JobAwaiting, completed_state\<lparr>commands := [Command ''completeWorkflowExecution'' JNull,
                                                      Command ''respondToQuery'' (JObj ''query'')]\<rparr>)"
    using T[where job = "\<lparr>variant = Some ''queryWorkflow'', payload = JObj ''query''\<rparr>",
            THEN conjunct2, THEN conjunct1]
    by (simp add: example_env_def example_activator_def pushCommand_def completed_state_def)
  from c run d1 d2 q show ?thesis by (simp add: prod_eq_iff)
qed

section \<open>Conclusion of an activation\<close>

text \<open>
  C3. \<^verbatim>\<open>concludeActivation()\<close> returns a pending result if and only if the list of
  pending external calls is not empty on entry, and the result then carries that list
  and the number of blocked conditions; otherwise it returns a complete result that
  encodes the run id and the commands as the interceptors return them. After a
  complete result the command buffer is empty.
\<close>

theorem concludeActivation_result:
  "((\<exists>calls n. fst (concludeActivation env s) = ConclusionPending calls n) = (pendingExternalCalls s \<noteq> []))
   \<and> (pendingExternalCalls s \<noteq> [] \<longrightarrow>
        fst (concludeActivation env s) = ConclusionPending (pendingExternalCalls s) (length (blockedConditions s)))
   \<and> (pendingExternalCalls s = [] \<longrightarrow>
        fst (concludeActivation env s) = ConclusionComplete (EncodeDelimited (map_option runId (info s))
           (composeInterceptors (internals env) concludeActivation_hook (\<lambda>input. input) (commands s))))
   \<and> (\<forall>enc. fst (concludeActivation env s) = ConclusionComplete enc \<longrightarrow>
        commands (snd (concludeActivation env s)) = [])"
  by (auto simp add: concludeActivation_def Let_def getAndResetPendingExternalCalls_def split: if_splits)

theorem concludeActivation_result_witness:
  "fst (concludeActivation example_env (example_state\<lparr>pendingExternalCalls := [example_call]\<rparr>))
      = ConclusionPending [example_call] 0
   \<and> fst (concludeActivation example_env (example_state\<lparr>commands := [CancelTimer 0]\<rparr>))
      = ConclusionComplete (EncodeDelimited (Some ''run-1'') [CancelTimer 0])
   \<and> commands (snd (concludeActivation example_env (example_state\<lparr>commands := [CancelTimer 0]\<rparr>))) = []"
proof -
  from concludeActivation_result[of example_env "example_state\<lparr>pendingExternalCalls := [example_call]\<rparr>"]
  have a: "fst (concludeActivation example_env (example_state\<lparr>pendingExternalCalls := [example_call]\<rparr>))
      = ConclusionPending [example_call] 0"
    by (simp add: example_state_def)
  from concludeActivation_result[of example_env "example_state\<lparr>commands := [CancelTimer 0]\<rparr>"]
  have b: "fst (concludeActivation example_env (example_state\<lparr>commands := [CancelTimer 0]\<rparr>))
      = ConclusionComplete (EncodeDelimited (Some ''run-1'') [CancelTimer 0])"
    and c: "commands (snd (concludeActivation example_env (example_state\<lparr>commands := [CancelTimer 0]\<rparr>))) = []"
    by (simp_all add: example_state_def example_env_def)
  from a b c show ?thesis by simp
qed

text \<open>
  C10. When \<^verbatim>\<open>concludeActivation()\<close> returns a pending result, the state afterwards
  is the state before with the list of pending external calls emptied, and nothing
  else: the commands, the registries, the counters and the blocked conditions are
  untouched. The result carries the list as it was, which was not empty.
\<close>

theorem concludeActivation_pending_frame:
  "\<forall>calls n s'. concludeActivation env s = (ConclusionPending calls n, s') \<longrightarrow>
     s' = s\<lparr>pendingExternalCalls := []\<rparr> \<and> calls = pendingExternalCalls s \<and> calls \<noteq> []
     \<and> n = length (blockedConditions s)"
  by (auto simp add: concludeActivation_def Let_def getAndResetPendingExternalCalls_def split: if_splits)

theorem concludeActivation_pending_frame_witness:
  "concludeActivation example_env
      (example_state\<lparr>pendingExternalCalls := [example_call], commands := [CancelTimer 0]\<rparr>)
    = (ConclusionPending [example_call] 0, example_state\<lparr>commands := [CancelTimer 0]\<rparr>)"
proof -
  let ?s = "example_state\<lparr>pendingExternalCalls := [example_call], commands := [CancelTimer 0]\<rparr>"
  have run: "concludeActivation example_env ?s
               = (ConclusionPending [example_call] 0, snd (concludeActivation example_env ?s))"
    by (simp add: concludeActivation_def getAndResetPendingExternalCalls_def Let_def example_state_def)
  from concludeActivation_pending_frame[of example_env ?s, rule_format, OF run]
  have "snd (concludeActivation example_env ?s) = ?s\<lparr>pendingExternalCalls := []\<rparr>" by simp
  with run show ?thesis by (simp add: example_state_def)
qed

section \<open>Sequence numbers\<close>

lemma seq_step_refl: "seq_step s s"
  by (simp add: seq_step_def)

lemma seq_step_same:
  "nextSeqs s' = nextSeqs s \<Longrightarrow> completions s' = completions s \<Longrightarrow> seq_step s s'"
  by (simp add: seq_step_def)

lemma seq_step_trans:
  assumes ab: "seq_step a b" and bc: "seq_step b c"
  shows "seq_step a c"
  unfolding seq_step_def
proof (intro conjI allI impI)
  fix k
  from ab bc have "nextSeqs a k \<le> nextSeqs b k" and "nextSeqs b k \<le> nextSeqs c k"
    by (simp_all add: seq_step_def)
  then show "nextSeqs a k \<le> nextSeqs c k" by (rule le_trans)
next
  fix k n
  assume c: "completions c k n \<noteq> None"
  from bc c have "completions b k n \<noteq> None \<or> n < nextSeqs c k" by (simp add: seq_step_def)
  then show "completions a k n \<noteq> None \<or> n < nextSeqs c k"
  proof
    assume "completions b k n \<noteq> None"
    with ab have "completions a k n \<noteq> None \<or> n < nextSeqs b k" by (simp add: seq_step_def)
    moreover from bc have "nextSeqs b k \<le> nextSeqs c k" by (simp add: seq_step_def)
    ultimately show ?thesis by auto
  next
    assume "n < nextSeqs c k"
    then show ?thesis by simp
  qed
qed

lemma seq_step_invariant:
  assumes "seq_step s s'" and "registered_below_next s"
  shows "registered_below_next s'"
  unfolding registered_below_next_def
proof (intro allI impI)
  fix k n
  assume "completions s' k n \<noteq> None"
  with assms(1) have "completions s k n \<noteq> None \<or> n < nextSeqs s' k" by (simp add: seq_step_def)
  moreover from assms(1) have "nextSeqs s k \<le> nextSeqs s' k" by (simp add: seq_step_def)
  moreover have "completions s k n \<noteq> None \<Longrightarrow> n < nextSeqs s k"
    using assms(2) by (simp add: registered_below_next_def)
  ultimately show "n < nextSeqs s' k" by auto
qed

lemma resolveExternalDependencies_seq_step:
  "seq_step s (snd (resolveExternalDependencies rs s))"
proof (induction rs arbitrary: s)
  case Nil
  then show ?case by (simp add: seq_step_refl)
next
  case (Cons r rs)
  show ?case
  proof (cases "completions s Dependency (r_seq r)")
    case None
    then show ?thesis by (simp add: consumeCompletion_def seq_step_refl)
  next
    case (Some c)
    let ?s1 = "s\<lparr>completions := (completions s)(Dependency := (completions s Dependency)(r_seq r := None))\<rparr>"
    let ?s2 = "?s1\<lparr>world := (if truthy (r_error r) then reject c (r_error r) (world ?s1)
                                else resolve c (r_result r) (world ?s1))\<rparr>"
    from Some have eq: "resolveExternalDependencies (r # rs) s = resolveExternalDependencies rs ?s2"
      by (simp add: consumeCompletion_def)
    have "seq_step s ?s2" by (simp add: seq_step_def)
    moreover have "seq_step ?s2 (snd (resolveExternalDependencies rs ?s2))" by (rule Cons.IH)
    ultimately have "seq_step s (snd (resolveExternalDependencies rs ?s2))" by (rule seq_step_trans)
    then show ?thesis unfolding eq .
  qed
qed

lemma tryUnblockConditions_seq_step: "seq_step s (snd (tryUnblockConditions s))"
proof -
  obtain w b where "snd (tryUnblockConditions s) = s\<lparr>world := w, blockedConditions := b\<rparr>"
    using tryUnblockConditions_frame by blast
  then show ?thesis by (simp add: seq_step_same)
qed

lemma concludeActivation_seq_step: "seq_step s (snd (concludeActivation env s))"
  by (simp add: concludeActivation_def Let_def getAndResetPendingExternalCalls_def seq_step_same)

lemma exec_seq_step:
  "seq_step s (snd (exec (overrideGlobals msToTs global) env c s))"
proof (cases c)
  case (SetTimeout cb ms a)
  then show ?thesis by (simp add: overrideGlobals_def Let_def pushCommand_def seq_step_def)
next
  case (ClearTimeout h)
  then show ?thesis by (simp add: overrideGlobals_def Let_def pushCommand_def seq_step_def)
next
  case (CallStub st a)
  then show ?thesis by (cases st) (simp_all add: Let_def seq_step_def)
next
  case (Inject iface fname d m t)
  then show ?thesis by (simp add: inject_def Let_def seq_step_same)
next
  case (ResolveExternalDependencies rs)
  then show ?thesis by (simp add: resolveExternalDependencies_seq_step)
next
  case TryUnblockConditions
  then show ?thesis by (simp add: tryUnblockConditions_seq_step)
next
  case ConcludeActivation
  then show ?thesis by (simp add: concludeActivation_seq_step)
next
  case GetAndResetPendingExternalCalls
  then show ?thesis by (simp add: getAndResetPendingExternalCalls_def seq_step_same)
qed

lemma exec_allocation:
  "(k, n, b) \<in> set (fst (exec (overrideGlobals msToTs global) env c s)) \<Longrightarrow>
     nextSeqs s k \<le> n \<and> n < nextSeqs (snd (exec (overrideGlobals msToTs global) env c s)) k
     \<and> b = (completions s k n \<noteq> None)
     \<and> fst (exec (overrideGlobals msToTs global) env c s) = [(k, n, b)]"
proof (cases c)
  case (SetTimeout cb ms a)
  assume "(k, n, b) \<in> set (fst (exec (overrideGlobals msToTs global) env c s))"
  with SetTimeout show ?thesis by (auto simp: overrideGlobals_def Let_def pushCommand_def)
next
  case (CallStub st a)
  assume "(k, n, b) \<in> set (fst (exec (overrideGlobals msToTs global) env c s))"
  with CallStub show ?thesis by (cases st) (auto simp: Let_def)
qed simp_all

lemma seqsOf_append: "seqsOf k (xs @ ys) = seqsOf k xs @ seqsOf k ys"
  by (simp add: seqsOf_def)

lemma seqsOf_mem: "n \<in> set (seqsOf k log) \<Longrightarrow> \<exists>b. (k, n, b) \<in> set log"
  by (auto simp: seqsOf_def)

lemma run_lower:
  "(k, n, b) \<in> set (fst (run (overrideGlobals msToTs global) env cs s)) \<Longrightarrow> nextSeqs s k \<le> n"
proof (induction cs arbitrary: s)
  case Nil
  then show ?case by simp
next
  case (Cons c cs)
  let ?g = "overrideGlobals msToTs global"
  let ?s1 = "snd (exec ?g env c s)"
  from Cons.prems have "(k, n, b) \<in> set (fst (exec ?g env c s)) \<or> (k, n, b) \<in> set (fst (run ?g env cs ?s1))"
    by (simp add: Let_def)
  then show ?case
  proof
    assume "(k, n, b) \<in> set (fst (exec ?g env c s))"
    then show ?thesis using exec_allocation by blast
  next
    assume "(k, n, b) \<in> set (fst (run ?g env cs ?s1))"
    then have "nextSeqs ?s1 k \<le> n" by (rule Cons.IH)
    moreover have "nextSeqs s k \<le> nextSeqs ?s1 k"
      using exec_seq_step[of s msToTs global env c] by (simp add: seq_step_def)
    ultimately show ?thesis by (rule order_trans[rotated])
  qed
qed

lemma run_sorted:
  "sorted_wrt (<) (seqsOf k (fst (run (overrideGlobals msToTs global) env cs s)))"
proof (induction cs arbitrary: s)
  case Nil
  then show ?case by (simp add: seqsOf_def)
next
  case (Cons c cs)
  let ?g = "overrideGlobals msToTs global"
  let ?a = "fst (exec ?g env c s)"
  let ?s1 = "snd (exec ?g env c s)"
  have one: "sorted_wrt (<) (seqsOf k ?a)"
  proof (cases ?a)
    case Nil
    then show ?thesis by (simp add: seqsOf_def)
  next
    case (Cons x xs)
    obtain k' n b where x: "x = (k', n, b)" by (cases x)
    with Cons have "(k', n, b) \<in> set ?a" by simp
    from exec_allocation[OF this] have "?a = [(k', n, b)]" by simp
    then show ?thesis by (simp add: seqsOf_def)
  qed
  have cross: "x < y" if "x \<in> set (seqsOf k ?a)" and "y \<in> set (seqsOf k (fst (run ?g env cs ?s1)))" for x y
  proof -
    from that(1) obtain b where "(k, x, b) \<in> set ?a" using seqsOf_mem by blast
    from exec_allocation[OF this] have "x < nextSeqs ?s1 k" by simp
    moreover from that(2) obtain b' where "(k, y, b') \<in> set (fst (run ?g env cs ?s1))"
      using seqsOf_mem by blast
    then have "nextSeqs ?s1 k \<le> y" by (rule run_lower)
    ultimately show ?thesis by simp
  qed
  from one Cons.IH[of ?s1] cross show ?case
    by (simp add: Let_def seqsOf_append sorted_wrt_append)
qed

lemma run_fresh:
  "registered_below_next s \<Longrightarrow>
     (k, n, b) \<in> set (fst (run (overrideGlobals msToTs global) env cs s)) \<Longrightarrow> \<not> b"
proof (induction cs arbitrary: s)
  case Nil
  then show ?case by simp
next
  case (Cons c cs)
  let ?g = "overrideGlobals msToTs global"
  let ?s1 = "snd (exec ?g env c s)"
  have inv: "registered_below_next ?s1"
    using exec_seq_step Cons.prems(1) by (rule seq_step_invariant)
  from Cons.prems(2) have "(k, n, b) \<in> set (fst (exec ?g env c s)) \<or> (k, n, b) \<in> set (fst (run ?g env cs ?s1))"
    by (simp add: Let_def)
  then show ?case
  proof
    assume "(k, n, b) \<in> set (fst (exec ?g env c s))"
    from exec_allocation[OF this] have "nextSeqs s k \<le> n" and "b = (completions s k n \<noteq> None)"
      by simp_all
    moreover have "completions s k n \<noteq> None \<Longrightarrow> n < nextSeqs s k"
      using Cons.prems(1) unfolding registered_below_next_def by blast
    ultimately show ?thesis by auto
  next
    assume "(k, n, b) \<in> set (fst (run ?g env cs ?s1))"
    with inv show ?thesis by (rule Cons.IH)
  qed
qed

text \<open>
  C5. In every run, from every state, the sequence numbers allocated for a kind are
  strictly increasing in the order of allocation, hence pairwise distinct, and none
  is below the counter the run started with. If on entry every registered completion
  sits under a number below its counter, as in a fresh state, then no allocation of
  the run meets a number under which a completion is registered.
\<close>

theorem seqs_strictly_increasing:
  "sorted_wrt (<) (seqsOf k (fst (run (overrideGlobals msToTs global) env cs s)))
   \<and> distinct (seqsOf k (fst (run (overrideGlobals msToTs global) env cs s)))
   \<and> (\<forall>n\<in>set (seqsOf k (fst (run (overrideGlobals msToTs global) env cs s))). nextSeqs s k \<le> n)
   \<and> (registered_below_next s \<longrightarrow>
        (\<forall>x\<in>set (fst (run (overrideGlobals msToTs global) env cs s)). \<not> snd (snd x)))"
proof -
  let ?log = "fst (run (overrideGlobals msToTs global) env cs s)"
  have a: "sorted_wrt (<) (seqsOf k ?log)" by (rule run_sorted)
  then have b: "distinct (seqsOf k ?log)" by (simp add: strict_sorted_iff)
  have c: "\<forall>n\<in>set (seqsOf k ?log). nextSeqs s k \<le> n"
    using seqsOf_mem run_lower by blast
  have d: "\<not> snd (snd x)" if "registered_below_next s" and "x \<in> set ?log" for x
  proof -
    obtain k' n b where x: "x = (k', n, b)" by (cases x)
    with that run_fresh[of s k' n b msToTs global env cs] show ?thesis by simp
  qed
  from a b c d show ?thesis by blast
qed

text \<open>
  Two timers with a cancellation between them, then three dependency calls, the
  second of them \<^verbatim>\<open>ASYNC_IGNORED\<close>: the timers get 0 and 2, the dependencies 0 and 1.
\<close>

lemma run_Cons_case:
  "run g env (c # cs) s =
     (case exec g env c s of (a, s1) \<Rightarrow> (case run g env cs s1 of (b, s2) \<Rightarrow> (a @ b, s2)))"
  by (simp add: Let_def case_prod_beta)

theorem seqs_strictly_increasing_witness:
  "registered_below_next example_state
   \<and> fst (run (overrideGlobals example_msToTs host_globals) example_env example_calls example_state)
       = [(Timer, 0, False), (Timer, 2, False), (Dependency, 0, False), (Dependency, 1, False)]
   \<and> sorted_wrt (<) (seqsOf Timer
        (fst (run (overrideGlobals example_msToTs host_globals) example_env example_calls example_state)))
   \<and> sorted_wrt (<) (seqsOf Dependency
        (fst (run (overrideGlobals example_msToTs host_globals) example_env example_calls example_state)))
   \<and> list_all (\<lambda>x. \<not> snd (snd x))
        (fst (run (overrideGlobals example_msToTs host_globals) example_env example_calls example_state))"
proof -
  have inv: "registered_below_next example_state"
    by (simp add: registered_below_next_def example_state_def)
  have log: "fst (run (overrideGlobals example_msToTs host_globals) example_env example_calls example_state)
       = [(Timer, 0, False), (Timer, 2, False), (Dependency, 0, False), (Dependency, 1, False)]"
    by (simp add: example_calls_def example_state_def overrideGlobals_def pushCommand_def Let_def
        run_Cons_case del: run.simps(2))
  note t = seqs_strictly_increasing[where k = Timer and msToTs = example_msToTs and global = host_globals
        and env = example_env and cs = example_calls and s = example_state, THEN conjunct1]
  note d = seqs_strictly_increasing[where k = Dependency and msToTs = example_msToTs and global = host_globals
        and env = example_env and cs = example_calls and s = example_state, THEN conjunct1]
  note f = seqs_strictly_increasing[where k = Timer and msToTs = example_msToTs and global = host_globals
        and env = example_env and cs = example_calls and s = example_state,
        THEN conjunct2, THEN conjunct2, THEN conjunct2, THEN mp, OF inv]
  from f have fresh: "list_all (\<lambda>x. \<not> snd (snd x))
        (fst (run (overrideGlobals example_msToTs host_globals) example_env example_calls example_state))"
    by (simp only: list_all_iff)
  from inv log t d fresh show ?thesis by (intro conjI)
qed

end
